theory Spec2Isabelle
  imports Main "HOL-Library.Sublist"
begin

section \<open>Regular expressions with backtracking priority\<close>

text \<open>
  The two services are written almost entirely with JavaScript regular-expression
  literals.  The embedding keeps each literal as a value of the datatype \<open>rx\<close> whose
  shape follows the literal, and gives the literals their meaning by one matcher with
  the priorities of a backtracking engine: the matcher returns every way of matching, in
  the order in which backtracking would try them, so the head of the list is the match
  JavaScript reports.

  A character is an 8-bit \<open>char\<close> (the code units below 256).  A match state is the
  input still unread together with the groups captured so far (newest first).
\<close>

datatype rx =
    Eps
  | Chr "char \<Rightarrow> bool"
  | Seq rx rx
  | Alt rx rx
  | Star bool rx
  | Group nat rx
  | Look rx
  | Eoi

type_synonym captures = "(nat \<times> string) list"
type_synonym mstate = "string \<times> captures"

text \<open>
  \<open>Star greedy r\<close> is \<open>r*\<close> (greedy) or \<open>r*?\<close> (lazy).  An iteration that consumes
  nothing is rejected, as in the language definition, so every iteration shortens the
  unread input; the recursion is on that length.
\<close>

function star_iter :: "(mstate \<Rightarrow> mstate list) \<Rightarrow> bool \<Rightarrow> mstate \<Rightarrow> mstate list" where
  "star_iter f greedy st =
     (let more = concat (map (star_iter f greedy)
                   (filter (\<lambda>st'. length (fst st') < length (fst st)) (f st)))
      in if greedy then more @ [st] else st # more)"
  by pat_completeness auto
termination
  by (relation "measure (\<lambda>(f, greedy, st). length (fst st))") auto

declare star_iter.simps [simp del]

primrec ms :: "rx \<Rightarrow> mstate \<Rightarrow> mstate list" where
  "ms Eps st = [st]"
| "ms (Chr P) st =
     (case fst st of [] \<Rightarrow> [] | c # cs \<Rightarrow> if P c then [(cs, snd st)] else [])"
| "ms (Seq r1 r2) st = concat (map (ms r2) (ms r1 st))"
| "ms (Alt r1 r2) st = ms r1 st @ ms r2 st"
| "ms (Star greedy r) st = star_iter (ms r) greedy st"
| "ms (Group i r) st =
     map (\<lambda>st'. (fst st', (i, take (length (fst st) - length (fst st')) (fst st)) # snd st'))
       (ms r st)"
| "ms (Look r) st = (case ms r st of [] \<Rightarrow> [] | st' # _ \<Rightarrow> [(fst st, snd st')])"
| "ms Eoi st = (if fst st = [] then [st] else [])"

definition Plus :: "bool \<Rightarrow> rx \<Rightarrow> rx" where
  "Plus greedy r = Seq r (Star greedy r)"

definition Opt :: "rx \<Rightarrow> rx" where
  "Opt r = Alt r Eps"

definition Lit :: "string \<Rightarrow> rx" where
  "Lit s = foldr (\<lambda>c r. Seq (Chr (\<lambda>x. x = c)) r) s Eps"

text \<open>Case-insensitive literal (flag \<open>i\<close>): each ASCII letter matches both of its cases.\<close>

definition lower_ascii :: "char \<Rightarrow> char" where
  "lower_ascii c =
     (let n = (of_char c :: nat) in if 65 \<le> n \<and> n \<le> 90 then char_of (n + 32) else c)"

definition LitCI :: "string \<Rightarrow> rx" where
  "LitCI s = foldr (\<lambda>c r. Seq (Chr (\<lambda>x. lower_ascii x = lower_ascii c)) r) s Eps"

subsection \<open>Character classes\<close>

definition is_digit :: "char \<Rightarrow> bool" where
  "is_digit c = (let n = (of_char c :: nat) in 48 \<le> n \<and> n \<le> 57)"

definition is_alpha :: "char \<Rightarrow> bool" where
  "is_alpha c = (let n = (of_char c :: nat) in (65 \<le> n \<and> n \<le> 90) \<or> (97 \<le> n \<and> n \<le> 122))"

definition is_word :: "char \<Rightarrow> bool" where
  "is_word c = (is_alpha c \<or> is_digit c \<or> c = CHR ''_'')"

text \<open>\<open>[\w\-./]\<close>\<close>

definition is_pathchar :: "char \<Rightarrow> bool" where
  "is_pathchar c = (is_word c \<or> c = CHR ''-'' \<or> c = CHR ''.'' \<or> c = CHR ''/'')"

text \<open>
  \<open>\s\<close>, and the characters \<open>trim\<close> strips: tab, line feed, vertical tab, form feed,
  carriage return, space and the no-break space.
\<close>

definition is_space :: "char \<Rightarrow> bool" where
  "is_space c = (let n = (of_char c :: nat) in (9 \<le> n \<and> n \<le> 13) \<or> n = 32 \<or> n = 160)"

definition any_char :: "char \<Rightarrow> bool" where
  "any_char c = True"

definition backtick :: char where
  "backtick = CHR 0x60"

definition fence :: string where
  "fence = [backtick, backtick, backtick]"

subsection \<open>\<open>exec\<close>, \<open>test\<close>, \<open>match\<close> and the \<open>while (exec)\<close> loop\<close>

text \<open>
  A match object: the text before the match, the matched text (\<open>match[0]\<close>), the groups
  and the text after the match.  \<open>exec\<close> tries every start position from left to right,
  the end of the input included.  None of the patterns below looks behind the start
  position, so matching on the unread suffix is matching at \<open>lastIndex\<close>.
\<close>

record rmatch =
  lead :: string
  matched :: string
  groups :: captures
  after :: string

definition group :: "rmatch \<Rightarrow> nat \<Rightarrow> string option" where
  "group m i = map_of (groups m) i"

fun exec :: "rx \<Rightarrow> string \<Rightarrow> rmatch option" where
  "exec r s =
     (case ms r (s, []) of
        st # _ \<Rightarrow> Some \<lparr>lead = [], matched = take (length s - length (fst st)) s,
                           groups = snd st, after = fst st\<rparr>
      | [] \<Rightarrow>
        (case s of
           [] \<Rightarrow> None
         | c # cs \<Rightarrow> map_option (\<lambda>m. m\<lparr>lead := c # lead m\<rparr>) (exec r cs)))"

declare exec.simps [simp del]

definition test :: "rx \<Rightarrow> string \<Rightarrow> bool" where
  "test r s = (exec r s \<noteq> None)"

text \<open>The unread input only ever shrinks to a suffix of itself.\<close>

lemma star_iter_suffix:
  "(\<And>st st'. st' \<in> set (f st) \<Longrightarrow> suffix (fst st') (fst st)) \<Longrightarrow>
   st' \<in> set (star_iter f g st) \<Longrightarrow> suffix (fst st') (fst st)"
proof (induction f g st arbitrary: st' rule: star_iter.induct)
  case (1 f greedy st)
  from "1.prems"(2) have "st' = st \<or> (\<exists>y \<in> set (f st). length (fst y) < length (fst st) \<and> st' \<in> set (star_iter f greedy y))"
    by (subst (asm) star_iter.simps) (auto simp: Let_def split: if_splits)
  then show ?case
  proof
    assume "st' = st" then show ?thesis by simp
  next
    assume "\<exists>y \<in> set (f st). length (fst y) < length (fst st) \<and> st' \<in> set (star_iter f greedy y)"
    then obtain y where y: "y \<in> set (f st)" "length (fst y) < length (fst st)" "st' \<in> set (star_iter f greedy y)"
      by blast
    have "suffix (fst st') (fst y)" using "1.IH"[of y st'] y "1.prems"(1) by simp
    moreover have "suffix (fst y) (fst st)" using "1.prems"(1) y(1) by blast
    ultimately show ?thesis using suffix_order.trans by blast
  qed
qed

lemma ms_suffix: "st' \<in> set (ms r st) \<Longrightarrow> suffix (fst st') (fst st)"
proof (induction r arbitrary: st st')
  case (Chr P)
  then show ?case by (cases "fst st") (auto split: if_splits simp: suffix_def)
next
  case (Seq r1 r2)
  from Seq.prems obtain y where y: "y \<in> set (ms r1 st)" "st' \<in> set (ms r2 y)" by auto
  from Seq.IH(1)[OF y(1)] Seq.IH(2)[OF y(2)] show ?case
    using suffix_order.trans by blast
next
  case (Star g r)
  then show ?case using star_iter_suffix[of "ms r"] by simp
next
  case (Look r)
  then show ?case by (auto split: list.splits)
qed (auto split: if_splits)

lemma ms_length: "st' \<in> set (ms r st) \<Longrightarrow> length (fst st') \<le> length (fst st)"
  using ms_suffix suffix_length_le by blast

lemma exec_parts: "exec r s = Some m \<Longrightarrow> s = lead m @ matched m @ after m"
proof (induction s arbitrary: m)
  case Nil
  then show ?case
    using ms_suffix[of _ r "([], [])"]
    by (subst (asm) exec.simps) (fastforce split: list.splits)
next
  case (Cons c cs)
  show ?case
  proof (cases "ms r (c # cs, [])")
    case Nil
    with Cons.prems obtain m' where m': "exec r cs = Some m'" "m = m'\<lparr>lead := c # lead m'\<rparr>"
      by (subst (asm) exec.simps) auto
    with Cons.IH[OF m'(1)] show ?thesis by simp
  next
    case (Cons st sts)
    then have "suffix (fst st) (c # cs)" using ms_suffix[of st r "(c # cs, [])"] by simp
    then obtain u where u: "c # cs = u @ fst st" by (auto simp: suffix_def)
    from Cons Cons.prems have "m = \<lparr>lead = [], matched = take (length (c # cs) - length (fst st)) (c # cs), groups = snd st, after = fst st\<rparr>"
      by (subst (asm) exec.simps) auto
    moreover have "take (length (c # cs) - length (fst st)) (c # cs) = u"
      by (subst u, subst u) simp
    ultimately show ?thesis using u by simp
  qed
qed

text \<open>
  \<open>while ((match = re.exec(s)) !== null) { ... }\<close> with the flag \<open>g\<close>: the next search
  starts where the last match ended.  After an empty match \<open>lastIndex\<close> does not move and
  the loop never ends; that is the value \<open>None\<close>.
\<close>

function exec_all :: "rx \<Rightarrow> string \<Rightarrow> rmatch list option" where
  "exec_all r s =
     (case exec r s of
        None \<Rightarrow> Some []
      | Some m \<Rightarrow>
          if matched m = [] then None
          else map_option (\<lambda>rest. m # rest) (exec_all r (after m)))"
  by pat_completeness auto
termination
proof (relation "measure (\<lambda>(r, s). length s)")
  show "wf (measure (\<lambda>(r, s). length s))" by simp
next
  fix r :: rx and s :: string and m :: rmatch
  assume "exec r s = Some m" and "matched m \<noteq> []"
  then have "length s = length (lead m) + length (matched m) + length (after m)"
    and "0 < length (matched m)"
    using arg_cong[OF exec_parts[of r s m], of length] by simp_all
  then have "length (after m) < length s"
    by linarith
  then show "((r, after m), (r, s)) \<in> measure (\<lambda>(r, s). length s)"
    by simp
qed

declare exec_all.simps [simp del]

section \<open>IssueAnalyzerService.extractFileReferences\<close>

subsection \<open>Numbers, arrays and exceptions\<close>

text \<open>
  A JavaScript number is a double.  The numbers of this function are the values of
  \<open>parseInt\<close> on strings of decimal digits and what \<open>i++\<close> makes of them: non-negative
  integers that a double holds, and \<open>Infinity\<close>.  \<open>round_double\<close> is the conversion
  of an integer to the nearest double: every integer up to \<open>2^53\<close> is a double; a
  larger one keeps its 53 leading bits, rounded to nearest with ties to the even
  significand, and from \<open>2^1024 - 2^970\<close> on the result is \<open>Infinity\<close>.
\<close>

datatype number = Num nat | Infinity

fun bits :: "nat \<Rightarrow> nat" where
  "bits n = (if n = 0 then 0 else Suc (bits (n div 2)))"

declare bits.simps [simp del]

definition round_double :: "nat \<Rightarrow> number" where
  "round_double n =
     (if n \<le> 2 ^ 53 then Num n
      else
        (let k = bits n - 53;
             q = n div 2 ^ k;
             r = n mod 2 ^ k;
             significand = (if 2 ^ k < 2 * r \<or> (2 * r = 2 ^ k \<and> odd q) then q + 1 else q)
         in if significand * 2 ^ k < 2 ^ 1024 then Num (significand * 2 ^ k) else Infinity))"

text \<open>\<open>i++\<close> and \<open>i <= endLine\<close> on these numbers.\<close>

fun increment :: "number \<Rightarrow> number" where
  "increment (Num n) = round_double (n + 1)"
| "increment Infinity = Infinity"

fun less_eq_number :: "number \<Rightarrow> number \<Rightarrow> bool" where
  "less_eq_number (Num a) (Num b) = (a \<le> b)"
| "less_eq_number (Num a) Infinity = True"
| "less_eq_number Infinity (Num b) = False"
| "less_eq_number Infinity Infinity = True"

text \<open>
  \<open>parseInt(d, 10)\<close> on a non-empty string of decimal digits, which is all that \<open>(\d+)\<close>
  captures: the double nearest to the number written.  (For a number of more than twenty
  digits the language lets an engine round from the first twenty; the embedding rounds
  the number as written, as V8 does.)
\<close>

definition decimal :: "string \<Rightarrow> nat" where
  "decimal d = foldl (\<lambda>n c. 10 * n + (of_char c - 48)) 0 d"

definition parseInt10 :: "string \<Rightarrow> number" where
  "parseInt10 d = round_double (decimal d)"

text \<open>
  The exceptions of the two services: the \<open>TypeError\<close> of a property read on \<open>null\<close>
  and the \<open>RangeError\<close> (invalid array length) of an array that cannot grow.
\<close>

datatype error = TypeError | RangeError

text \<open>
  \<open>array.push(x)\<close>.  An array cannot grow beyond some length: the language allows
  \<open>2^32 - 1\<close> elements at most, and an engine may refuse earlier.  That length is the
  parameter \<open>limit\<close> of the embedding; a \<open>push\<close> on an array of that length throws.
\<close>

definition push :: "nat \<Rightarrow> 'a list \<Rightarrow> 'a \<Rightarrow> error + 'a list" where
  "push limit array x = (if length array < limit then Inr (array @ [x]) else Inl RangeError)"

subsection \<open>The function\<close>

record fileReference =
  path :: string
  lineNumbers :: "number list"

text \<open>\<open>[\w\-./]+\.[a-zA-Z]+\<close>, the file-path pattern shared by all three literals.\<close>

definition Ch :: "char \<Rightarrow> rx" where
  "Ch c = Chr (\<lambda>x. x = c)"

definition pathPattern :: rx where
  "pathPattern = Seq (Plus True (Chr is_pathchar)) (Seq (Ch CHR ''.'') (Plus True (Chr is_alpha)))"

text \<open>\<open>/([\w\-./]+\.[a-zA-Z]+):(\d+)(?:-(\d+))?/g\<close>\<close>

definition fileLinePattern :: rx where
  "fileLinePattern =
     Seq (Group 1 pathPattern)
       (Seq (Ch CHR '':'')
         (Seq (Group 2 (Plus True (Chr is_digit)))
           (Opt (Seq (Ch CHR ''-'') (Group 3 (Plus True (Chr is_digit)))))))"

text \<open>\<open>/```(?:[a-zA-Z]+)?\s*(?:([\w\-./]+\.[a-zA-Z]+))?[\s\S]*?```/g\<close>\<close>

definition codeBlockPattern :: rx where
  "codeBlockPattern =
     Seq (Lit fence)
       (Seq (Opt (Plus True (Chr is_alpha)))
         (Seq (Star True (Chr is_space))
           (Seq (Opt (Group 1 pathPattern))
             (Seq (Star False (Chr any_char)) (Lit fence)))))"

text \<open>
  A group that took no part in a match is \<open>undefined\<close>.  The source only tests such a
  group for truthiness (\<open>match[3] ? ...\<close>, \<open>if (match[1])\<close>, \<open>codeMatch[1] || ...\<close>),
  where \<open>undefined\<close> and the empty string behave alike, or reads a group that takes
  part in every match; \<open>group_text\<close> gives the empty string for \<open>undefined\<close>.
\<close>

definition group_text :: "rmatch \<Rightarrow> nat \<Rightarrow> string" where
  "group_text m i = (case group m i of None \<Rightarrow> [] | Some t \<Rightarrow> t)"

text \<open>
  \<open>for (let i = startLine; i <= endLine; i++) lineNumbers.push(i)\<close>.  The loop ends when
  \<open>i\<close> has passed \<open>endLine\<close>, or with the \<open>RangeError\<close> of a \<open>push\<close>; it cannot run
  for ever, since every round makes the array longer.
\<close>

function for_lines :: "nat \<Rightarrow> number \<Rightarrow> number \<Rightarrow> number list \<Rightarrow> error + number list" where
  "for_lines limit i endLine numbers =
     (if less_eq_number i endLine then
        (case push limit numbers i of
           Inl e \<Rightarrow> Inl e
         | Inr pushed \<Rightarrow> for_lines limit (increment i) endLine pushed)
      else Inr numbers)"
  by pat_completeness auto
termination
  by (relation "measure (\<lambda>(limit, i, endLine, numbers). limit - length numbers)")
    (auto simp: push_def split: if_splits)

declare for_lines.simps [simp del]

text \<open>
  The body of the first loop up to the reference it is about to push: the groups are
  read, the numbers parsed and the range expanded.
\<close>

definition lineRef :: "nat \<Rightarrow> rmatch \<Rightarrow> error + fileReference" where
  "lineRef limit m =
     (let filePath = group_text m 1;
          startLine = parseInt10 (group_text m 2);
          endLine = (if group_text m 3 \<noteq> [] then parseInt10 (group_text m 3) else startLine)
      in case for_lines limit startLine endLine [] of
           Inl e \<Rightarrow> Inl e
         | Inr numbers \<Rightarrow> Inr \<lparr>path = filePath, lineNumbers = numbers\<rparr>)"

text \<open>
  The first loop inside its \<open>try\<close>: one reference for each match, pushed without a look
  at the list.  An exception ends the loop; the \<open>catch\<close> only logs it, and the function
  goes on with the references pushed so far.
\<close>

fun linePass :: "nat \<Rightarrow> fileReference list \<Rightarrow> rmatch list \<Rightarrow> fileReference list" where
  "linePass limit fileReferences [] = fileReferences"
| "linePass limit fileReferences (m # later) =
     (case lineRef limit m of
        Inl e \<Rightarrow> fileReferences
      | Inr reference \<Rightarrow>
          (case push limit fileReferences reference of
             Inl e \<Rightarrow> fileReferences
           | Inr pushed \<Rightarrow> linePass limit pushed later))"

text \<open>
  The second loop inside its \<open>try\<close>: a reference without line numbers for each file name
  of a code fence that is not yet listed.
\<close>

fun blockPass :: "nat \<Rightarrow> fileReference list \<Rightarrow> rmatch list \<Rightarrow> fileReference list" where
  "blockPass limit fileReferences [] = fileReferences"
| "blockPass limit fileReferences (m # later) =
     (if group_text m 1 \<noteq> [] then
        (let filePath = group_text m 1
         in if \<not> list_ex (\<lambda>ref. path ref = filePath) fileReferences then
              (case push limit fileReferences \<lparr>path = filePath, lineNumbers = []\<rparr> of
                 Inl e \<Rightarrow> fileReferences
               | Inr pushed \<Rightarrow> blockPass limit pushed later)
            else blockPass limit fileReferences later)
      else blockPass limit fileReferences later)"

text \<open>
  \<open>issueBody\<close> is \<open>None\<close> for \<open>null\<close>.  The matches of a pattern do not depend on what
  the loop body does, so each loop is given the list of its matches.  Both inner
  \<open>catch\<close> blocks are part of the two passes above; nothing reaches the outer one.  The
  result is \<open>None\<close> if the search for the matches does not end.
\<close>

definition extractFileReferences :: "nat \<Rightarrow> string option \<Rightarrow> fileReference list option" where
  "extractFileReferences limit issueBody =
     (case issueBody of
        None \<Rightarrow> Some []
      | Some body \<Rightarrow>
          if body = [] then Some []
          else
            (case exec_all fileLinePattern body of
               None \<Rightarrow> None
             | Some lineMatches \<Rightarrow>
                 (case exec_all codeBlockPattern body of
                    None \<Rightarrow> None
                  | Some blockMatches \<Rightarrow>
                      Some (blockPass limit (linePass limit [] lineMatches) blockMatches))))"

section \<open>IssueAnalyzerService.analyzeCode\<close>

record codeIssue =
  issue_type :: string
  description :: string
  severity :: string

text \<open>\<open>String.prototype.includes\<close>: the argument occurs somewhere in the string.\<close>

fun str_includes :: "string \<Rightarrow> string \<Rightarrow> bool" where
  "str_includes [] t = (t = [])"
| "str_includes (c # cs) t = (prefix t (c # cs) \<or> str_includes cs t)"

definition is_quote :: "char \<Rightarrow> bool" where
  "is_quote c = (c = CHR 0x27 \<or> c = CHR 0x22)"

text \<open>The common tail \<open>\s*[:=]\s*['"]+[^'"]+['"]\<close> of the five credential patterns.\<close>

definition assignedQuoted :: rx where
  "assignedQuoted =
     Seq (Star True (Chr is_space))
       (Seq (Chr (\<lambda>c. c = CHR '':'' \<or> c = CHR ''=''))
         (Seq (Star True (Chr is_space))
           (Seq (Plus True (Chr is_quote))
             (Seq (Plus True (Chr (\<lambda>c. \<not> is_quote c))) (Chr is_quote)))))"

definition credentialPatterns :: "rx list" where
  "credentialPatterns =
     [Seq (Lit ''password'') assignedQuoted,
      Seq (Lit ''api'') (Seq (Opt (Chr (\<lambda>c. c = CHR ''_'' \<or> c = CHR ''-''))) (Seq (Lit ''key'') assignedQuoted)),
      Seq (Lit ''secret'') assignedQuoted,
      Seq (Lit ''token'') assignedQuoted,
      Seq (Lit ''auth'') assignedQuoted]"

text \<open>
  \<open>code\<close> is \<open>None\<close> for \<open>null\<close> and for a value that is not a string.  The list
  \<open>issues\<close> is threaded through the four checks in the order of the source.
\<close>

definition analyzeCode :: "string option \<Rightarrow> codeIssue list" where
  "analyzeCode code_arg =
     (case code_arg of
        None \<Rightarrow> []
      | Some code \<Rightarrow>
          if code = [] then []
          else
            (let issues0 = [];
                 issues1 =
                   (if str_includes code ''console.log'' \<or> str_includes code ''console.debug''
                        \<or> str_includes code ''console.error''
                    then issues0 @ [\<lparr>issue_type = ''debugging'',
                                       description = ''Debug statements found in code'',
                                       severity = ''low''\<rparr>]
                    else issues0);
                 issues2 =
                   (if str_includes code ''TODO'' \<or> str_includes code ''FIXME''
                        \<or> str_includes code ''HACK'' \<or> str_includes code ''XXX''
                    then issues1 @ [\<lparr>issue_type = ''incomplete'',
                                       description = ''TODO, FIXME, HACK or XXX comments found'',
                                       severity = ''medium''\<rparr>]
                    else issues1);
                 issues3 =
                   (if str_includes code ''eval('' \<or> str_includes code ''new Function(''
                    then issues2 @ [\<lparr>issue_type = ''security'',
                                       description = ''Potentially unsafe code execution'',
                                       severity = ''high''\<rparr>]
                    else issues2);
                 issues4 =
                   (if list_ex (\<lambda>pattern. test pattern code) credentialPatterns
                    then issues3 @ [\<lparr>issue_type = ''security'',
                                       description = ''Potential hardcoded credentials found'',
                                       severity = ''critical''\<rparr>]
                    else issues3)
             in issues4))"

section \<open>GeminiService.parseAIResponse\<close>

record knownFile =
  path_f :: string
  content :: string

record codeSnippet =
  filePath :: string
  originalCode :: string
  suggestedCode :: string
  lineNumbers_c :: "nat list"

record aiSolution =
  analysis :: string
  solution :: string
  codeSnippets :: "codeSnippet list"
  bestPractices :: "string list"

text \<open>\<open>String.prototype.trim\<close>\<close>

definition trim :: "string \<Rightarrow> string" where
  "trim s = rev (dropWhile is_space (rev (dropWhile is_space s)))"

text \<open>
  \<open>s.split(sep)\<close> for a non-empty string \<open>sep\<close>; \<open>piece\<close> is the text read since the
  last separator.
\<close>

function split_str :: "string \<Rightarrow> string \<Rightarrow> string \<Rightarrow> string list" where
  "split_str sep piece s =
     (case s of
        [] \<Rightarrow> [piece]
      | c # cs \<Rightarrow>
          if sep \<noteq> [] \<and> prefix sep s then piece # split_str sep [] (drop (length sep) s)
          else split_str sep (piece @ [c]) cs)"
  by pat_completeness auto
termination
  by (relation "measure (\<lambda>(sep, piece, s). length s)") auto

declare split_str.simps [simp del]

text \<open>
  \<open>s.split(re)\<close> for a pattern without groups: the pattern is tried at each position
  \<open>q\<close> before the end; a match that ends where the current piece starts (\<open>e = p\<close>) is
  skipped, any other match closes the piece.
\<close>

function split_loop :: "rx \<Rightarrow> string \<Rightarrow> string \<Rightarrow> string list" where
  "split_loop r piece s =
     (case s of
        [] \<Rightarrow> [piece]
      | c # cs \<Rightarrow>
          (case ms r (s, []) of
             [] \<Rightarrow> split_loop r (piece @ [c]) cs
           | st # _ \<Rightarrow>
               if length (fst st) = length s \<and> piece = [] then split_loop r (piece @ [c]) cs
               else piece # split_loop r [] (fst st)))"
  by pat_completeness auto
termination
proof (relation "measure (\<lambda>(r, piece, s). 2 * length s + (if piece = [] then 0 else 1))")
  show "wf (measure (\<lambda>(r, piece, s). 2 * length s + (if piece = [] then 0 else 1)))" by simp
next
  fix r :: rx and piece s :: string and c :: char and cs :: string
  assume "s = c # cs"
  then show "((r, piece @ [c], cs), (r, piece, s))
      \<in> measure (\<lambda>(r, piece, s). 2 * length s + (if piece = [] then 0 else 1))"
    by simp
next
  fix r :: rx and piece s :: string and c :: char and cs :: string and st :: mstate and sts
  assume "s = c # cs" "ms r (s, []) = st # sts" "length (fst st) = length s \<and> piece = []"
  then show "((r, piece @ [c], cs), (r, piece, s))
      \<in> measure (\<lambda>(r, piece, s). 2 * length s + (if piece = [] then 0 else 1))"
    by simp
next
  fix r :: rx and piece s :: string and c :: char and cs :: string and st :: mstate and sts
  assume a: "s = c # cs" "ms r (s, []) = st # sts" "\<not> (length (fst st) = length s \<and> piece = [])"
  have "length (fst st) \<le> length s" using ms_length[of st r "(s, [])"] a(2) by simp
  with a(3) show "((r, [], fst st), (r, piece, s))
      \<in> measure (\<lambda>(r, piece, s). 2 * length s + (if piece = [] then 0 else 1))"
    by auto
qed

declare split_loop.simps [simp del]

definition split_rx :: "rx \<Rightarrow> string \<Rightarrow> string list" where
  "split_rx r s =
     (if s = [] then (if ms r ([], []) \<noteq> [] then [] else [[]]) else split_loop r [] s)"

text \<open>\<open>s.replace(re, '''')\<close> without the flag \<open>g\<close>: the first match is cut out.\<close>

definition replace_first :: "rx \<Rightarrow> string \<Rightarrow> string" where
  "replace_first r s = (case exec r s of None \<Rightarrow> s | Some m \<Rightarrow> lead m @ after m)"

definition newline :: char where
  "newline = CHR 0x0A"

text \<open>
  The three section patterns carry the flags \<open>i\<close> and \<open>s\<close>: literals ignore case and
  \<open>.\<close> matches every character.  Without the flag \<open>m\<close>, \<open>$\<close> is the end of the input.
  All three have the shape \<open>(?:labels)[:\s]+(.*?)(?=\n\s*(?:following))\<close>.

  \<open>/(?:Analysis|Issue Analysis)[:\s]+(.*?)(?=\n\s*(?:Solution|Step-by-step solution|Suggested solution|\d\.\s*Solution))/is\<close>
\<close>

definition sectionPattern :: "rx \<Rightarrow> rx \<Rightarrow> rx" where
  "sectionPattern label following =
     Seq label
       (Seq (Plus True (Chr (\<lambda>c. c = CHR '':'' \<or> is_space c)))
         (Seq (Group 1 (Star False (Chr any_char)))
           (Look (Seq (Ch newline) (Seq (Star True (Chr is_space)) following)))))"

text \<open>\<open>\d\.\s*Label\<close>\<close>

definition numbered :: "string \<Rightarrow> rx" where
  "numbered label =
     Seq (Chr is_digit) (Seq (Ch CHR ''.'') (Seq (Star True (Chr is_space)) (LitCI label)))"

definition analysisPattern :: rx where
  "analysisPattern =
     sectionPattern
       (Alt (LitCI ''Analysis'') (LitCI ''Issue Analysis''))
       (Alt (LitCI ''Solution'')
         (Alt (LitCI ''Step-by-step solution'')
           (Alt (LitCI ''Suggested solution'') (numbered ''Solution''))))"

text \<open>\<open>/(?:Solution|Step-by-step solution|Suggested solution)[:\s]+(.*?)(?=\n\s*(?:Best Practices|Prevention|\d\.\s*Best Practices))/is\<close>\<close>

definition solutionPattern :: rx where
  "solutionPattern =
     sectionPattern
       (Alt (LitCI ''Solution'') (Alt (LitCI ''Step-by-step solution'') (LitCI ''Suggested solution'')))
       (Alt (LitCI ''Best Practices'') (Alt (LitCI ''Prevention'') (numbered ''Best Practices'')))"

text \<open>\<open>/(?:Best Practices|Prevention)[:\s]+(.*?)(?=\n\s*(?:Code Improvements|Suggested Improvements|Conclusion|$))/is\<close>\<close>

definition bestPracticesPattern :: rx where
  "bestPracticesPattern =
     sectionPattern
       (Alt (LitCI ''Best Practices'') (LitCI ''Prevention''))
       (Alt (LitCI ''Code Improvements'')
         (Alt (LitCI ''Suggested Improvements'') (Alt (LitCI ''Conclusion'') Eoi)))"

text \<open>\<open>/\n\s*(?:\d+\.|-|\*)\s+/\<close>\<close>

definition itemPattern :: rx where
  "itemPattern =
     Seq (Ch newline)
       (Seq (Star True (Chr is_space))
         (Seq (Alt (Seq (Plus True (Chr is_digit)) (Ch CHR ''.'')) (Alt (Ch CHR ''-'') (Ch CHR ''*'')))
           (Plus True (Chr is_space))))"

text \<open>\<open>/```(?:[a-zA-Z]+)?\s*(?:[\w\-./]+\.[a-zA-Z]+)?\s*\n?/\<close> and \<open>/\n?```$/\<close>\<close>

definition openFencePattern :: rx where
  "openFencePattern =
     Seq (Lit fence)
       (Seq (Opt (Plus True (Chr is_alpha)))
         (Seq (Star True (Chr is_space))
           (Seq (Opt pathPattern)
             (Seq (Star True (Chr is_space)) (Opt (Ch newline))))))"

definition closeFencePattern :: rx where
  "closeFencePattern = Seq (Opt (Ch newline)) (Seq (Lit fence) Eoi)"

text \<open>
  The analysis: the labelled text, or else \<open>aiResponse.split('\n\n')[0].trim()\<close>.
  (\<open>split\<close> never returns an empty array, but an \<open>undefined\<close> first element would
  make \<open>trim\<close> throw, and the model says so.)
\<close>

definition analysisOf :: "string \<Rightarrow> error + string" where
  "analysisOf aiResponse =
     (let analysisMatch = exec analysisPattern aiResponse
      in case analysisMatch of
           Some m \<Rightarrow>
             if group_text m 1 \<noteq> [] then Inr (trim (group_text m 1))
             else (case split_str [newline, newline] [] aiResponse of
                     [] \<Rightarrow> Inl TypeError
                   | firstParagraph # _ \<Rightarrow> Inr (trim firstParagraph))
         | None \<Rightarrow>
             (case split_str [newline, newline] [] aiResponse of
                [] \<Rightarrow> Inl TypeError
              | firstParagraph # _ \<Rightarrow> Inr (trim firstParagraph)))"

definition solutionOf :: "string \<Rightarrow> string" where
  "solutionOf aiResponse =
     (let solutionMatch = exec solutionPattern aiResponse
      in case solutionMatch of
           Some m \<Rightarrow> if group_text m 1 \<noteq> [] then trim (group_text m 1) else []
         | None \<Rightarrow> [])"

definition bestPracticesOf :: "string \<Rightarrow> string list" where
  "bestPracticesOf aiResponse =
     (let bestPracticesMatch = exec bestPracticesPattern aiResponse
      in case bestPracticesMatch of
           Some m \<Rightarrow>
             if group_text m 1 \<noteq> [] then
               (let practicesText = trim (group_text m 1);
                    practices = filter (\<lambda>p. p \<noteq> []) (split_rx itemPattern practicesText)
                in map trim practices)
             else []
         | None \<Rightarrow> [])"

text \<open>
  The body of the code-block loop.  \<open>fileContents\<close> is \<open>None\<close> for \<open>null\<close> or
  \<open>undefined\<close>; an array, even an empty one, is truthy.
\<close>

definition snippetOf :: "knownFile list option \<Rightarrow> rmatch \<Rightarrow> codeSnippet" where
  "snippetOf fileContents codeMatch =
     (let codeBlock = matched codeMatch;
          annotation = group_text codeMatch 1;
          code = replace_first closeFencePattern (replace_first openFencePattern codeBlock);
          matchedFile =
            (case fileContents of
               Some files \<Rightarrow>
                 if annotation \<noteq> [] then
                   find (\<lambda>f. str_includes (path_f f) annotation \<or> str_includes annotation (path_f f))
                     files
                 else None
             | None \<Rightarrow> None);
          original = (case matchedFile of Some f \<Rightarrow> content f | None \<Rightarrow> [])
      in \<lparr>filePath = (case matchedFile of Some f \<Rightarrow> path_f f | None \<Rightarrow> annotation),
          originalCode = original,
          suggestedCode = code,
          lineNumbers_c = []\<rparr>)"

text \<open>
  \<open>aiResponse\<close> is \<open>None\<close> for \<open>null\<close>: the first statement that uses it,
  \<open>aiResponse.match(...)\<close>, then throws a TypeError.  The parameter \<open>issue\<close> is never
  read and is left out.  The outer \<open>option\<close> is \<open>None\<close> if the code-block loop does not
  end.
\<close>

definition parseAIResponse ::
    "string option \<Rightarrow> knownFile list option \<Rightarrow> (error + aiSolution) option" where
  "parseAIResponse aiResponse_arg fileContents =
     (case aiResponse_arg of
        None \<Rightarrow> Some (Inl TypeError)
      | Some aiResponse \<Rightarrow>
          (case analysisOf aiResponse of
             Inl e \<Rightarrow> Some (Inl e)
           | Inr analysisText \<Rightarrow>
               (case exec_all codeBlockPattern aiResponse of
                  None \<Rightarrow> None
                | Some codeMatches \<Rightarrow>
                    Some (Inr \<lparr>analysis = analysisText,
                                solution = solutionOf aiResponse,
                                codeSnippets =
                                  foldl (\<lambda>snippets codeMatch. snippets @ [snippetOf fileContents codeMatch])
                                    [] codeMatches,
                                bestPractices = bestPracticesOf aiResponse\<rparr>))))"

section \<open>Notions used in the statements and proofs\<close>

subsection \<open>Line references\<close>

text \<open>A list in which each number is the one before it after \<open>i++\<close>.\<close>

fun successive :: "number list \<Rightarrow> bool" where
  "successive [] = True"
| "successive [x] = True"
| "successive (x # y # later) = (y = increment x \<and> successive (y # later))"

text \<open>
  The line numbers that a match of the line pattern writes, as integers; a match whose
  numbers are below \<open>2^53\<close> and whose range an array can hold; and the reference that
  the first loop pushes for such a match.
\<close>

definition start_of :: "rmatch \<Rightarrow> nat" where
  "start_of m = decimal (group_text m 2)"

definition end_of :: "rmatch \<Rightarrow> nat" where
  "end_of m = (if group_text m 3 \<noteq> [] then decimal (group_text m 3) else start_of m)"

definition plain :: "nat \<Rightarrow> rmatch \<Rightarrow> bool" where
  "plain limit m =
     (start_of m < 2 ^ 53 \<and> end_of m < 2 ^ 53 \<and> Suc (end_of m) - start_of m \<le> limit)"

definition reference :: "rmatch \<Rightarrow> fileReference" where
  "reference m =
     \<lparr>path = group_text m 1, lineNumbers = map Num [start_of m..<Suc (end_of m)]\<rparr>"

text \<open>The two passes on their own: the references that the first loop registers, and
  the file names that the second loop reads off the code fences.\<close>

definition lineRefs :: "nat \<Rightarrow> string \<Rightarrow> fileReference list" where
  "lineRefs limit body =
     (case exec_all fileLinePattern body of None \<Rightarrow> [] | Some found \<Rightarrow> linePass limit [] found)"

definition blockAnnotations :: "string \<Rightarrow> string list" where
  "blockAnnotations body =
     (case exec_all codeBlockPattern body of
        None \<Rightarrow> []
      | Some found \<Rightarrow> filter (\<lambda>a. a \<noteq> []) (map (\<lambda>m. group_text m 1) found))"

text \<open>
  A text that the first loop gets through, with room left for one more reference: each
  of its matches is plain, and they are fewer than an array can hold.
\<close>

definition passable :: "nat \<Rightarrow> string \<Rightarrow> bool" where
  "passable limit pre =
     (case exec_all fileLinePattern pre of
        None \<Rightarrow> False
      | Some found \<Rightarrow> list_all (plain limit) found \<and> length found < limit)"

text \<open>Where a token can stand: at the start of the text or after a character that is
  neither a path character nor a colon.\<close>

definition token_start :: "string \<Rightarrow> bool" where
  "token_start pre = (pre = [] \<or> (\<not> is_pathchar (last pre) \<and> last pre \<noteq> CHR '':''))"

text \<open>A non-empty string of decimal digits.\<close>

definition digits :: "string \<Rightarrow> bool" where
  "digits d = (d \<noteq> [] \<and> list_all is_digit d)"

subsection \<open>Patterns and matches\<close>

text \<open>The groups that a pattern contains.\<close>

fun group_ids :: "rx \<Rightarrow> nat set" where
  "group_ids Eps = {}"
| "group_ids (Chr P) = {}"
| "group_ids (Seq r1 r2) = group_ids r1 \<union> group_ids r2"
| "group_ids (Alt r1 r2) = group_ids r1 \<union> group_ids r2"
| "group_ids (Star g r) = group_ids r"
| "group_ids (Group i r) = insert i (group_ids r)"
| "group_ids (Look r) = group_ids r"
| "group_ids Eoi = {}"

text \<open>The least number of characters that a match of the pattern reads.\<close>

fun min_len :: "rx \<Rightarrow> nat" where
  "min_len Eps = 0"
| "min_len (Chr P) = 1"
| "min_len (Seq r1 r2) = min_len r1 + min_len r2"
| "min_len (Alt r1 r2) = min (min_len r1) (min_len r2)"
| "min_len (Star g r) = 0"
| "min_len (Group i r) = min_len r"
| "min_len (Look r) = 0"
| "min_len Eoi = 0"

text \<open>The match that backtracking finds first.\<close>

definition first :: "rx \<Rightarrow> mstate \<Rightarrow> mstate option" where
  "first r st = (case ms r st of [] \<Rightarrow> None | st' # _ \<Rightarrow> Some st')"

text \<open>A hyphen and a digit: the start of the range part of a token.\<close>

definition range_follows :: "string \<Rightarrow> bool" where
  "range_follows t = (case t of c # d # _ \<Rightarrow> c = CHR ''-'' \<and> is_digit d | _ \<Rightarrow> False)"

text \<open>
  A character \<open>c\<close> that no class of the pattern accepts acts like the end of the input
  (for a pattern without lookahead and \<open>$\<close>): matching before \<open>c\<close> does not depend on
  what follows.
\<close>

fun avoids :: "char \<Rightarrow> rx \<Rightarrow> bool" where
  "avoids c Eps = True"
| "avoids c (Chr P) = (\<not> P c)"
| "avoids c (Seq r1 r2) = (avoids c r1 \<and> avoids c r2)"
| "avoids c (Alt r1 r2) = (avoids c r1 \<and> avoids c r2)"
| "avoids c (Star g r) = avoids c r"
| "avoids c (Group i r) = avoids c r"
| "avoids c (Look r) = False"
| "avoids c Eoi = False"

definition with_tail :: "string \<Rightarrow> mstate \<Rightarrow> mstate" where
  "with_tail w st = (fst st @ w, snd st)"

subsection \<open>Snippets, sections and list items\<close>

text \<open>
  In the spec's words: the annotation contains the known path, or the known path
  contains the annotation (\<open>sublist xs ys\<close>: \<open>xs\<close> occurs in \<open>ys\<close>).
\<close>

definition contains_either :: "string \<Rightarrow> knownFile \<Rightarrow> bool" where
  "contains_either annotation f =
     (sublist (path_f f) annotation \<or> sublist annotation (path_f f))"

text \<open>How one code snippet relates to the match of its fence and to the known files.\<close>

definition resolved :: "knownFile list \<Rightarrow> rmatch \<Rightarrow> codeSnippet \<Rightarrow> bool" where
  "resolved knownFiles m s =
     (if group_text m 1 = [] then filePath s = [] \<and> originalCode s = []
      else (\<exists>earlier f later. knownFiles = earlier @ f # later
               \<and> contains_either (group_text m 1) f
               \<and> (\<forall>g \<in> set earlier. \<not> contains_either (group_text m 1) g)
               \<and> filePath s = path_f f \<and> originalCode s = content f)
         \<or> ((\<forall>g \<in> set knownFiles. \<not> contains_either (group_text m 1) g)
               \<and> filePath s = group_text m 1 \<and> originalCode s = []))"

text \<open>
  Words that a text must contain, letter case aside, for a pattern to match it.
  \<open>occurs_ci ws t\<close>: one of the (lower-case) words \<open>ws\<close> occurs in the text \<open>t\<close>.
\<close>

definition occurs_ci :: "string set \<Rightarrow> string \<Rightarrow> bool" where
  "occurs_ci ws t = (\<exists>w \<in> ws. sublist w (map lower_ascii t))"

definition needs :: "string set \<Rightarrow> rx \<Rightarrow> bool" where
  "needs ws r = (\<forall>st st'. st' \<in> set (ms r st) \<longrightarrow> occurs_ci ws (fst st))"

text \<open>The first paragraph: the text before the first blank line.\<close>

fun first_paragraph :: "string \<Rightarrow> string" where
  "first_paragraph [] = []"
| "first_paragraph (c # cs) =
     (if prefix [newline, newline] (c # cs) then [] else c # first_paragraph cs)"

text \<open>What \<open>trim\<close> leaves: a text that neither begins nor ends with white space.\<close>

definition trimmed :: "string \<Rightarrow> bool" where
  "trimmed s = (s = [] \<or> (\<not> is_space (hd s) \<and> \<not> is_space (last s)))"

text \<open>Two texts that differ at most in the case of their ASCII letters.\<close>

definition same_ci :: "string \<Rightarrow> string \<Rightarrow> bool" where
  "same_ci a b = (map lower_ascii a = map lower_ascii b)"

text \<open>
  The text after a label: a non-empty run of colons and white space; and one line of
  text that begins with neither.
\<close>

definition label_gap :: "string \<Rightarrow> bool" where
  "label_gap sep = (sep \<noteq> [] \<and> list_all (\<lambda>c. c = CHR '':'' \<or> is_space c) sep)"

definition one_line :: "string \<Rightarrow> bool" where
  "one_line a = (a \<noteq> [] \<and> hd a \<noteq> CHR '':'' \<and> \<not> is_space (hd a) \<and> newline \<notin> set a)"

text \<open>
  A list item as the split pattern reads it: a newline, indentation, a marker (digits
  and a dot, a hyphen or an asterisk), white space on the same line, and the text.
\<close>

record listItem =
  indent :: string
  bullet :: string
  spacing :: string
  item_text :: string

definition is_marker :: "string \<Rightarrow> bool" where
  "is_marker m = (m = ''-'' \<or> m = ''*''
     \<or> (butlast m \<noteq> [] \<and> list_all is_digit (butlast m) \<and> last m = CHR ''.''))"

definition item_line :: "listItem \<Rightarrow> string" where
  "item_line i = newline # indent i @ bullet i @ spacing i @ item_text i"

definition item_ok :: "listItem \<Rightarrow> bool" where
  "item_ok i = (list_all is_space (indent i) \<and> is_marker (bullet i)
     \<and> spacing i \<noteq> [] \<and> list_all is_space (spacing i) \<and> newline \<notin> set (spacing i)
     \<and> item_text i \<noteq> [] \<and> trimmed (item_text i) \<and> newline \<notin> set (item_text i))"

text \<open>The place where a label stands: the start of the text, or of a line after indentation.\<close>

definition line_start :: "string \<Rightarrow> bool" where
  "line_start pre = (pre = [] \<or> newline \<in> set (takeWhile is_space (rev pre)))"

text \<open>The labels of the three section patterns and the labels that end each section.\<close>

definition analysisLabel :: rx where
  "analysisLabel = Alt (LitCI ''Analysis'') (LitCI ''Issue Analysis'')"

definition analysisEnd :: rx where
  "analysisEnd =
     Alt (LitCI ''Solution'')
       (Alt (LitCI ''Step-by-step solution'')
         (Alt (LitCI ''Suggested solution'') (numbered ''Solution'')))"

definition solutionLabel :: rx where
  "solutionLabel =
     Alt (LitCI ''Solution'') (Alt (LitCI ''Step-by-step solution'') (LitCI ''Suggested solution''))"

definition solutionEnd :: rx where
  "solutionEnd =
     Alt (LitCI ''Best Practices'') (Alt (LitCI ''Prevention'') (numbered ''Best Practices''))"

definition bestPracticesLabel :: rx where
  "bestPracticesLabel = Alt (LitCI ''Best Practices'') (LitCI ''Prevention'')"

definition bestPracticesEnd :: rx where
  "bestPracticesEnd =
     Alt (LitCI ''Code Improvements'')
       (Alt (LitCI ''Suggested Improvements'') (Alt (LitCI ''Conclusion'') Eoi))"

text \<open>
  A section as a section pattern finds it.  The text is
  \<open>pre @ l @ gap @ body @ newline # rest\<close>: no label starts inside \<open>pre\<close>; the label
  pattern reads \<open>l\<close>; \<open>gap\<close> is the run of colons and white space after the label, and
  the body begins with neither; no newline inside the body is followed, after optional
  white space, by a label that ends the section, and the newline after the body is.
\<close>

definition followed_by :: "rx \<Rightarrow> string \<Rightarrow> bool" where
  "followed_by following t = (ms (Seq (Star True (Chr is_space)) following) (t, []) \<noteq> [])"

definition section_at :: "rx \<Rightarrow> rx \<Rightarrow> string \<Rightarrow> string \<Rightarrow> string \<Rightarrow> string \<Rightarrow> string \<Rightarrow> bool" where
  "section_at label following pre l gap body rest =
     ((\<forall>p \<in> set (suffixes pre). p \<noteq> [] \<longrightarrow> ms label (p @ l @ gap @ body @ newline # rest, []) = [])
      \<and> first label (l @ gap @ body @ newline # rest, []) = Some (gap @ body @ newline # rest, [])
      \<and> label_gap gap \<and> body \<noteq> [] \<and> hd body \<noteq> CHR '':'' \<and> \<not> is_space (hd body)
      \<and> (\<forall>x \<in> set (suffixes body). x \<noteq> [] \<and> hd x = newline \<longrightarrow>
            \<not> followed_by following (tl x @ newline # rest))
      \<and> followed_by following rest)"

text \<open>A text that begins with a list marker and white space.\<close>

definition marked :: "string \<Rightarrow> bool" where
  "marked t =
     (case t of
        [] \<Rightarrow> False
      | c # cs \<Rightarrow>
          if c = CHR ''-'' \<or> c = CHR ''*'' then cs \<noteq> [] \<and> is_space (hd cs)
          else is_digit c
            \<and> (case dropWhile is_digit cs of
                 d # e # _ \<Rightarrow> d = CHR ''.'' \<and> is_space e
               | _ \<Rightarrow> False))"

section \<open>Properties of extractFileReferences\<close>

lemma ms_min_len: "st' \<in> set (ms r st) \<Longrightarrow> length (fst st') + min_len r \<le> length (fst st)"
proof (induction r arbitrary: st st')
  case (Chr P)
  then show ?case by (cases "fst st") (auto split: if_splits)
next
  case (Seq r1 r2)
  from Seq.prems obtain y where y: "y \<in> set (ms r1 st)" "st' \<in> set (ms r2 y)" by auto
  from Seq.IH(1)[OF y(1)] Seq.IH(2)[OF y(2)] show ?case by simp
next
  case (Alt r1 r2)
  then show ?case by fastforce
next
  case (Star g r)
  then show ?case using ms_length[of st' "Star g r" st] by simp
next
  case (Group i r)
  from Group.prems obtain y where "y \<in> set (ms r st)" "fst st' = fst y" by auto
  with Group.IH[of y st] show ?case by simp
next
  case (Look r)
  then show ?case by (auto split: list.splits)
qed (auto split: if_splits)

lemma exec_first:
  "exec r s = Some m \<Longrightarrow>
     \<exists>t st sts. suffix t s \<and> ms r (t, []) = st # sts \<and> groups m = snd st \<and> after m = fst st
        \<and> matched m = take (length t - length (fst st)) t"
proof (induction s arbitrary: m)
  case Nil
  then show ?case
    by (subst (asm) exec.simps) (auto split: list.splits)
next
  case (Cons c cs)
  show ?case
  proof (cases "ms r (c # cs, [])")
    case Nil
    with Cons.prems obtain m' where m': "exec r cs = Some m'" "m = m'\<lparr>lead := c # lead m'\<rparr>"
      by (subst (asm) exec.simps) auto
    from Cons.IH[OF m'(1)] obtain t st sts where
      "suffix t cs" "ms r (t, []) = st # sts" "groups m' = snd st" "after m' = fst st"
      "matched m' = take (length t - length (fst st)) t" by blast
    with m'(2) show ?thesis by (auto intro!: exI[of _ t] simp: suffix_Cons)
  next
    case (Cons st sts)
    with Cons.prems have "m = \<lparr>lead = [], matched = take (length (c # cs) - length (fst st)) (c # cs), groups = snd st, after = fst st\<rparr>"
      by (subst (asm) exec.simps) auto
    with Cons show ?thesis by (intro exI[of _ "c # cs"]) auto
  qed
qed

lemma exec_matched_nonempty:
  assumes "0 < min_len r" "exec r s = Some m"
  shows "matched m \<noteq> []"
proof -
  from exec_first[OF assms(2)] obtain t st sts where
    t: "ms r (t, []) = st # sts" "matched m = take (length t - length (fst st)) t" by blast
  then have "length (fst st) + min_len r \<le> length t"
    using ms_min_len[of st r "(t, [])"] by simp
  with assms(1) t(2) show ?thesis by auto
qed

lemma exec_all_total:
  "0 < min_len r \<Longrightarrow> \<exists>found. exec_all r s = Some found"
proof (induction r s rule: exec_all.induct)
  case (1 r s)
  show ?case
  proof (cases "exec r s")
    case None
    then show ?thesis by (subst exec_all.simps) simp
  next
    case (Some m)
    with "1.prems" have ne: "matched m \<noteq> []" by (rule exec_matched_nonempty)
    from "1.IH"[OF Some ne "1.prems"] obtain found where "exec_all r (after m) = Some found" by blast
    with Some ne show ?thesis by (subst exec_all.simps) simp
  qed
qed

lemma min_len_fileLinePattern: "min_len fileLinePattern = 5"
  by (simp add: fileLinePattern_def pathPattern_def Plus_def Opt_def Ch_def)

lemma min_len_codeBlockPattern: "min_len codeBlockPattern = 6"
  by (simp add: codeBlockPattern_def pathPattern_def Plus_def Opt_def Ch_def Lit_def fence_def)

lemma first_Seq:
  "first r1 st = Some a \<Longrightarrow> first r2 a = Some b \<Longrightarrow> first (Seq r1 r2) st = Some b"
  by (auto simp: first_def split: list.splits)

lemma first_Group:
  "first r st = Some a \<Longrightarrow>
   first (Group i r) st = Some (fst a, (i, take (length (fst st) - length (fst a)) (fst st)) # snd a)"
  by (auto simp: first_def split: list.splits)

lemma first_Opt_Some: "first r st = Some a \<Longrightarrow> first (Opt r) st = Some a"
  by (auto simp: first_def Opt_def split: list.splits)

lemma first_Opt_None: "first r st = None \<Longrightarrow> first (Opt r) st = Some st"
  by (auto simp: first_def Opt_def split: list.splits)

lemma first_Ch: "first (Ch c) (c # t, caps) = Some (t, caps)"
  by (simp add: first_def Ch_def)

lemma first_Ch_None: "t = [] \<or> hd t \<noteq> c \<Longrightarrow> first (Ch c) (t, caps) = None"
  by (cases t) (auto simp: first_def Ch_def)

lemma first_Eps: "first Eps st = Some st"
  by (simp add: first_def)

lemma first_Seq_None: "first r1 st = None \<Longrightarrow> first (Seq r1 r2) st = None"
  by (auto simp: first_def split: list.splits)

text \<open>A greedy \<open>[class]*\<close> offers every split of the run of class characters, longest first.\<close>

lemma star_class:
  "\<forall>x \<in> set xs. P x \<Longrightarrow> t = [] \<or> \<not> P (hd t) \<Longrightarrow>
   ms (Star True (Chr P)) (xs @ t, caps) = map (\<lambda>ys. (ys @ t, caps)) (suffixes xs)"
proof (induction xs)
  case Nil
  then have "ms (Chr P) (t, caps) = []" by (cases t) auto
  then show ?case by (simp add: star_iter.simps)
next
  case (Cons x xs)
  then have "ms (Chr P) ((x # xs) @ t, caps) = [(xs @ t, caps)]" by simp
  then have "ms (Star True (Chr P)) ((x # xs) @ t, caps)
      = ms (Star True (Chr P)) (xs @ t, caps) @ [((x # xs) @ t, caps)]"
    by (simp add: star_iter.simps[of _ _ "(x # xs @ t, caps)"])
  with Cons show ?case by simp
qed

lemma plus_class:
  "P x \<Longrightarrow> \<forall>x \<in> set xs. P x \<Longrightarrow> t = [] \<or> \<not> P (hd t) \<Longrightarrow>
   ms (Plus True (Chr P)) (x # xs @ t, caps) = map (\<lambda>ys. (ys @ t, caps)) (suffixes xs)"
  using star_class[of xs P t caps] by (simp add: Plus_def)

lemma first_plus_class:
  "P x \<Longrightarrow> \<forall>x \<in> set xs. P x \<Longrightarrow> t = [] \<or> \<not> P (hd t) \<Longrightarrow>
   first (Plus True (Chr P)) (x # xs @ t, caps) = Some (t, caps)"
  using plus_class[of P x xs t caps] by (cases xs rule: rev_cases) (auto simp: first_def suffixes_snoc)

lemma first_plus_class_None:
  "t = [] \<or> \<not> P (hd t) \<Longrightarrow> first (Plus True (Chr P)) (t, caps) = None"
  by (cases t) (auto simp: first_def Plus_def)

lemma first_skip:
  assumes "ms r1 st = xs @ y # zs" "\<forall>x \<in> set xs. ms r2 x = []" "first r2 y = Some b"
  shows "first (Seq r1 r2) st = Some b"
proof -
  have "concat (map (ms r2) xs) = []" using assms(2) by simp
  then have "ms (Seq r1 r2) st = ms r2 y @ concat (map (ms r2) zs)"
    using assms(1) by simp
  with assms(3) show ?thesis by (auto simp: first_def split: list.splits)
qed

lemma alpha_pathchar: "is_alpha c \<Longrightarrow> is_pathchar c"
  by (simp add: is_pathchar_def is_word_def)

lemma digit_pathchar: "is_digit c \<Longrightarrow> is_pathchar c"
  by (simp add: is_pathchar_def is_word_def)

lemma dot_pathchar: "is_pathchar CHR ''.''"
  by (simp add: is_pathchar_def)

lemma dot_not_alpha: "\<not> is_alpha CHR ''.''"
  by (simp add: is_alpha_def)

text \<open>
  On \<open>stem.ext\<close> followed by a character outside the path class, the path pattern first
  yields the whole of \<open>stem.ext\<close>.
\<close>

lemma first_pathPattern:
  assumes stem: "stem \<noteq> []" "\<forall>c \<in> set stem. is_pathchar c"
    and ext: "ext \<noteq> []" "\<forall>c \<in> set ext. is_alpha c"
    and t: "t = [] \<or> \<not> is_pathchar (hd t)"
  shows "first pathPattern (stem @ CHR ''.'' # ext @ t, caps) = Some (t, caps)"
proof -
  obtain x xs where x: "stem = x # xs" using stem(1) by (cases stem) auto
  obtain e es where e: "ext = e # es" using ext(1) by (cases ext) auto
  let ?tail = "Seq (Ch CHR ''.'') (Plus True (Chr is_alpha))"
  have run: "\<forall>c \<in> set (xs @ CHR ''.'' # ext). is_pathchar c"
    using stem(2) ext(2) x by (auto simp: alpha_pathchar dot_pathchar)
  have "ms (Plus True (Chr is_pathchar)) (x # (xs @ CHR ''.'' # ext) @ t, caps)
      = map (\<lambda>ys. (ys @ t, caps)) (suffixes (xs @ CHR ''.'' # ext))"
    using plus_class[of is_pathchar x "xs @ CHR ''.'' # ext" t caps] stem(2) x run t by simp
  also have "suffixes (xs @ CHR ''.'' # ext)
      = suffixes ext @ (CHR ''.'' # ext) # map (\<lambda>u. u @ CHR ''.'' # ext) (tl (suffixes xs))"
    by (simp add: suffixes_append)
  finally have split: "ms (Plus True (Chr is_pathchar)) (stem @ CHR ''.'' # ext @ t, caps)
      = map (\<lambda>ys. (ys @ t, caps)) (suffixes ext) @ (CHR ''.'' # ext @ t, caps)
          # map (\<lambda>ys. (ys @ t, caps)) (map (\<lambda>u. u @ CHR ''.'' # ext) (tl (suffixes xs)))"
    using x by simp
  have fail: "\<forall>st \<in> set (map (\<lambda>ys. (ys @ t, caps)) (suffixes ext)). ms ?tail st = []"
  proof
    fix st assume "st \<in> set (map (\<lambda>ys. (ys @ t, caps)) (suffixes ext))"
    then obtain ys where ys: "suffix ys ext" "st = (ys @ t, caps)" by (auto simp: in_set_suffixes)
    have "ys @ t = [] \<or> hd (ys @ t) \<noteq> CHR ''.''"
    proof (cases ys)
      case Nil
      then show ?thesis using t dot_pathchar by (cases t) auto
    next
      case (Cons y ys')
      then have "y \<in> set ext" using ys(1) by (auto simp: suffix_def)
      then have "is_alpha y" using ext(2) by blast
      then show ?thesis using Cons dot_not_alpha by auto
    qed
    then have "first (Ch CHR ''.'') (ys @ t, caps) = None" by (rule first_Ch_None)
    then have "first ?tail (ys @ t, caps) = None" by (rule first_Seq_None)
    then show "ms ?tail st = []" using ys(2) by (simp add: first_def split: list.splits)
  qed
  have talpha: "t = [] \<or> \<not> is_alpha (hd t)" using t alpha_pathchar by blast
  have "first (Plus True (Chr is_alpha)) (e # es @ t, caps) = Some (t, caps)"
    using first_plus_class[of is_alpha e es t caps] ext(2) e talpha by simp
  then have ok: "first ?tail (CHR ''.'' # ext @ t, caps) = Some (t, caps)"
    using first_Seq[OF first_Ch, of "Plus True (Chr is_alpha)"] e by simp
  show ?thesis
    unfolding pathPattern_def
    by (rule first_skip[OF split fail ok])
qed

lemma colon_not_pathchar: "\<not> is_pathchar CHR '':''"
  by (simp add: is_pathchar_def is_word_def is_alpha_def is_digit_def)

lemma dash_not_digit: "\<not> is_digit CHR ''-''"
  by (simp add: is_digit_def)

lemma first_None_iff: "first r st = None \<longleftrightarrow> ms r st = []"
  by (simp add: first_def split: list.splits)

lemma exec_of_first:
  "first r (s, []) = Some st \<Longrightarrow>
   exec r s = Some \<lparr>lead = [], matched = take (length s - length (fst st)) s,
                    groups = snd st, after = fst st\<rparr>"
  by (subst exec.simps) (auto simp: first_def split: list.splits)

lemma first_group_digits:
  assumes d: "d \<noteq> []" "\<forall>c \<in> set d. is_digit c" and t: "t = [] \<or> \<not> is_digit (hd t)"
  shows "first (Group i (Plus True (Chr is_digit))) (d @ t, caps) = Some (t, (i, d) # caps)"
proof -
  obtain x xs where x: "d = x # xs" using d(1) by (cases d) auto
  have "first (Plus True (Chr is_digit)) (x # xs @ t, caps) = Some (t, caps)"
    using first_plus_class[of is_digit x xs t caps] d(2) x t by simp
  from first_Group[OF this, of i] show ?thesis using x by simp
qed

text \<open>The first match of the line pattern on \<open>stem.ext:d1-d2\<close> and on \<open>stem.ext:d1\<close>.\<close>

lemma first_path_colon:
  assumes "stem \<noteq> []" "\<forall>c \<in> set stem. is_pathchar c" "ext \<noteq> []" "\<forall>c \<in> set ext. is_alpha c"
    and "first r (t, [(1, stem @ CHR ''.'' # ext)]) = Some b"
  shows "first (Seq (Group 1 pathPattern) (Seq (Ch CHR '':'') r))
           (stem @ CHR ''.'' # ext @ CHR '':'' # t, []) = Some b"
proof -
  have "first pathPattern (stem @ CHR ''.'' # ext @ CHR '':'' # t, []) = Some (CHR '':'' # t, [])"
    using first_pathPattern[OF assms(1-4), of "CHR '':'' # t" "[]"] colon_not_pathchar by simp
  from first_Group[OF this, of 1]
  have g: "first (Group 1 pathPattern) (stem @ CHR ''.'' # ext @ CHR '':'' # t, [])
      = Some (CHR '':'' # t, [(1, stem @ CHR ''.'' # ext)])"
    by simp
  have "first (Seq (Ch CHR '':'') r) (CHR '':'' # t, [(1, stem @ CHR ''.'' # ext)]) = Some b"
    using first_Seq[OF first_Ch assms(5)] .
  from first_Seq[OF g this] show ?thesis .
qed

lemma first_line_range:
  assumes "stem \<noteq> []" "\<forall>c \<in> set stem. is_pathchar c" "ext \<noteq> []" "\<forall>c \<in> set ext. is_alpha c"
    and d1: "d1 \<noteq> []" "\<forall>c \<in> set d1. is_digit c"
    and d2: "d2 \<noteq> []" "\<forall>c \<in> set d2. is_digit c"
    and t: "t = [] \<or> \<not> is_digit (hd t)"
  shows "first fileLinePattern (stem @ CHR ''.'' # ext @ CHR '':'' # d1 @ CHR ''-'' # d2 @ t, [])
       = Some (t, [(3, d2), (2, d1), (1, stem @ CHR ''.'' # ext)])"
proof -
  let ?c1 = "[(1, stem @ CHR ''.'' # ext)]"
  have g2: "first (Group 2 (Plus True (Chr is_digit))) (d1 @ CHR ''-'' # d2 @ t, ?c1)
      = Some (CHR ''-'' # d2 @ t, (2, d1) # ?c1)"
    using first_group_digits[OF d1, of "CHR ''-'' # d2 @ t" 2 ?c1] dash_not_digit by simp
  have g3: "first (Group 3 (Plus True (Chr is_digit))) (d2 @ t, (2, d1) # ?c1)
      = Some (t, (3, d2) # (2, d1) # ?c1)"
    using first_group_digits[OF d2 t] .
  have "first (Opt (Seq (Ch CHR ''-'') (Group 3 (Plus True (Chr is_digit)))))
          (CHR ''-'' # d2 @ t, (2, d1) # ?c1) = Some (t, (3, d2) # (2, d1) # ?c1)"
    by (rule first_Opt_Some, rule first_Seq[OF first_Ch g3])
  from first_Seq[OF g2 this] show ?thesis
    unfolding fileLinePattern_def
    by (intro first_path_colon assms(1-4)) simp
qed

lemma first_line_single:
  assumes "stem \<noteq> []" "\<forall>c \<in> set stem. is_pathchar c" "ext \<noteq> []" "\<forall>c \<in> set ext. is_alpha c"
    and d1: "d1 \<noteq> []" "\<forall>c \<in> set d1. is_digit c"
    and t: "t = [] \<or> \<not> is_digit (hd t)" "\<not> range_follows t"
  shows "first fileLinePattern (stem @ CHR ''.'' # ext @ CHR '':'' # d1 @ t, [])
       = Some (t, [(2, d1), (1, stem @ CHR ''.'' # ext)])"
proof -
  let ?c1 = "[(1, stem @ CHR ''.'' # ext)]"
  have g2: "first (Group 2 (Plus True (Chr is_digit))) (d1 @ t, ?c1) = Some (t, (2, d1) # ?c1)"
    using first_group_digits[OF d1 t(1)] .
  have "ms (Seq (Ch CHR ''-'') (Group 3 (Plus True (Chr is_digit)))) (t, (2, d1) # ?c1) = []"
  proof (cases t)
    case Nil
    then show ?thesis by (simp add: Ch_def)
  next
    case (Cons c u)
    show ?thesis
    proof (cases "c = CHR ''-''")
      case False
      then show ?thesis using Cons by (simp add: Ch_def)
    next
      case True
      then have "u = [] \<or> \<not> is_digit (hd u)"
        using t(2) Cons by (cases u) (auto simp: range_follows_def)
      then have "first (Plus True (Chr is_digit)) (u, (2, d1) # ?c1) = None"
        by (rule first_plus_class_None)
      then have "ms (Plus True (Chr is_digit)) (u, (2, d1) # ?c1) = []"
        by (simp add: first_def split: list.splits)
      then show ?thesis using Cons True by (simp add: Ch_def)
    qed
  qed
  then have "first (Seq (Ch CHR ''-'') (Group 3 (Plus True (Chr is_digit)))) (t, (2, d1) # ?c1) = None"
    by (simp only: first_None_iff)
  then have "first (Opt (Seq (Ch CHR ''-'') (Group 3 (Plus True (Chr is_digit))))) (t, (2, d1) # ?c1)
      = Some (t, (2, d1) # ?c1)"
    by (rule first_Opt_None)
  from first_Seq[OF g2 this] show ?thesis
    unfolding fileLinePattern_def
    by (intro first_path_colon assms(1-4)) simp
qed

lemma star_iter_tail:
  "(\<And>st. f (with_tail w st) = map (with_tail w) (f st)) \<Longrightarrow>
   star_iter f g (with_tail w st) = map (with_tail w) (star_iter f g st)"
proof (induction f g st rule: star_iter.induct)
  case (1 f greedy st)
  have flt: "filter (\<lambda>st'. length (fst st') < length (fst (with_tail w st))) (map (with_tail w) (f st))
      = map (with_tail w) (filter (\<lambda>st'. length (fst st') < length (fst st)) (f st))"
    by (simp add: filter_map comp_def with_tail_def)
  have rec: "map (star_iter f greedy) (map (with_tail w) (filter (\<lambda>st'. length (fst st') < length (fst st)) (f st)))
      = map (\<lambda>y. map (with_tail w) (star_iter f greedy y)) (filter (\<lambda>st'. length (fst st') < length (fst st)) (f st))"
    using "1.IH" "1.prems" by (simp add: comp_def)
  let ?sel = "filter (\<lambda>st'. length (fst st') < length (fst st)) (f st)"
  have "star_iter f greedy (with_tail w st)
      = (let more = concat (map (star_iter f greedy)
                      (filter (\<lambda>st'. length (fst st') < length (fst (with_tail w st))) (f (with_tail w st))))
         in if greedy then more @ [with_tail w st] else with_tail w st # more)"
    by (rule star_iter.simps)
  also have "\<dots> = (let more = concat (map (\<lambda>y. map (with_tail w) (star_iter f greedy y)) ?sel)
         in if greedy then more @ [with_tail w st] else with_tail w st # more)"
    by (simp only: "1.prems" flt rec)
  also have "\<dots> = map (with_tail w) (let more = concat (map (star_iter f greedy) ?sel)
         in if greedy then more @ [st] else st # more)"
    by (simp add: Let_def map_concat comp_def)
  also have "\<dots> = map (with_tail w) (star_iter f greedy st)"
    by (rule arg_cong[where f = "map (with_tail w)"], rule star_iter.simps[symmetric])
  finally show ?case .
qed

lemma ms_local:
  "avoids c r \<Longrightarrow> ms r (with_tail (c # v) st) = map (with_tail (c # v)) (ms r st)"
proof (induction r arbitrary: st)
  case (Chr P)
  then show ?case by (cases "fst st") (auto simp: with_tail_def)
next
  case (Seq r1 r2)
  then show ?case by (simp add: map_concat comp_def)
next
  case (Star g r)
  then show ?case using star_iter_tail[of "ms r" "c # v" g st] by simp
next
  case (Group i r)
  have "\<And>y. y \<in> set (ms r st) \<Longrightarrow>
      take (length (fst (with_tail (c # v) st)) - length (fst (with_tail (c # v) y))) (fst (with_tail (c # v) st))
        = take (length (fst st) - length (fst y)) (fst st)"
    using ms_length[of _ r st] by (simp add: with_tail_def)
  then show ?case using Group by (simp add: comp_def with_tail_def cong: map_cong)
qed (simp_all add: with_tail_def)

lemma ms_empty_input: "0 < min_len r \<Longrightarrow> ms r ([], caps) = []"
proof (rule ccontr)
  assume "0 < min_len r" "ms r ([], caps) \<noteq> []"
  then obtain st where "st \<in> set (ms r ([], caps))" by (cases "ms r ([], caps)") auto
  from ms_min_len[OF this] \<open>0 < min_len r\<close> show False by simp
qed

lemma exec_local:
  assumes "avoids c r" "0 < min_len r"
  shows "exec r (u @ c # v) =
     (case exec r u of
        Some m \<Rightarrow> Some (m\<lparr>after := after m @ c # v\<rparr>)
      | None \<Rightarrow> map_option (\<lambda>m. m\<lparr>lead := u @ c # lead m\<rparr>) (exec r v))"
proof (induction u)
  case Nil
  have "ms r (with_tail (c # v) ([], [])) = []"
    using ms_local[OF assms(1), of v "([], [])"] ms_empty_input[OF assms(2)] by simp
  then have "ms r (c # v, []) = []" by (simp add: with_tail_def)
  moreover have "exec r [] = None"
    using ms_empty_input[OF assms(2)] by (subst exec.simps) simp
  ultimately show ?case by (subst exec.simps) simp
next
  case (Cons x xs)
  have loc: "ms r ((x # xs) @ c # v, []) = map (with_tail (c # v)) (ms r (x # xs, []))"
    using ms_local[OF assms(1), of v "(x # xs, [])"] by (simp add: with_tail_def)
  show ?case
  proof (cases "ms r (x # xs, [])")
    case Nil
    then have e1: "exec r (x # xs) = map_option (\<lambda>m. m\<lparr>lead := x # lead m\<rparr>) (exec r xs)"
      by (subst exec.simps) simp
    from Nil loc have e2: "exec r ((x # xs) @ c # v)
        = map_option (\<lambda>m. m\<lparr>lead := x # lead m\<rparr>) (exec r (xs @ c # v))"
      by (subst exec.simps) simp
    show ?thesis unfolding e1 e2 Cons.IH
      by (cases "exec r xs") (simp_all add: option.map_comp comp_def)
  next
    case (Cons st sts)
    have len: "length (fst st) \<le> length (x # xs)"
      using ms_length[of st r "(x # xs, [])"] Cons by simp
    from Cons have e1: "exec r (x # xs) = Some \<lparr>lead = [],
        matched = take (length (x # xs) - length (fst st)) (x # xs), groups = snd st, after = fst st\<rparr>"
      by (subst exec.simps) simp
    from Cons loc have e2: "exec r ((x # xs) @ c # v) = Some \<lparr>lead = [],
        matched = take (length ((x # xs) @ c # v) - length (fst st @ c # v)) ((x # xs) @ c # v),
        groups = snd st, after = fst st @ c # v\<rparr>"
      by (subst exec.simps) (simp add: with_tail_def)
    have "take (length (x # xs) - length (fst st)) ((x # xs) @ c # v)
        = take (length (x # xs) - length (fst st)) (x # xs)"
      by (rule take_append[THEN trans]) simp
    then show ?thesis unfolding e1 e2 by simp
  qed
qed

text \<open>Across such a character the loop finds, after the matches before it, the matches after it.\<close>

lemma exec_all_after:
  "avoids c r \<Longrightarrow> 0 < min_len r \<Longrightarrow> exec_all r v = Some found_v \<Longrightarrow>
     \<exists>found_u found_u' found_v'. exec_all r u = Some found_u
        \<and> exec_all r (u @ c # v) = Some (found_u' @ found_v')
        \<and> map groups found_u' = map groups found_u
        \<and> map groups found_v' = map groups found_v"
proof (induction r u rule: exec_all.induct)
  case (1 r u)
  note loc = exec_local[OF "1.prems"(1,2), of u v]
  show ?case
  proof (cases "exec r u")
    case None
    then have e: "exec r (u @ c # v) = map_option (\<lambda>m. m\<lparr>lead := u @ c # lead m\<rparr>) (exec r v)"
      using loc by simp
    have u: "exec_all r u = Some []" using None by (subst exec_all.simps) simp
    show ?thesis
    proof (cases "exec r v")
      case None
      then have "found_v = []" using "1.prems"(3) by (subst (asm) exec_all.simps) simp
      moreover have "exec_all r (u @ c # v) = Some ([] @ [])"
        using e None by (subst exec_all.simps) simp
      ultimately show ?thesis using u by blast
    next
      case (Some m2)
      then have ne: "matched m2 \<noteq> []" using exec_matched_nonempty[OF "1.prems"(2)] by blast
      from "1.prems"(3) Some ne obtain rest where
        rest: "exec_all r (after m2) = Some rest" "found_v = m2 # rest"
        by (subst (asm) exec_all.simps) auto
      have "exec_all r (u @ c # v) = Some (m2\<lparr>lead := u @ c # lead m2\<rparr> # rest)"
        using e Some ne rest(1) by (subst exec_all.simps) simp
      then have "exec_all r (u @ c # v) = Some ([] @ (m2\<lparr>lead := u @ c # lead m2\<rparr> # rest))
          \<and> map groups (m2\<lparr>lead := u @ c # lead m2\<rparr> # rest) = map groups found_v"
        using rest(2) by simp
      then show ?thesis using u by blast
    qed
  next
    case (Some m)
    then have ne: "matched m \<noteq> []" using exec_matched_nonempty[OF "1.prems"(2)] by blast
    from "1.IH"[OF Some ne "1.prems"] obtain fu0 fu fv where
      ih: "exec_all r (after m) = Some fu0" "exec_all r (after m @ c # v) = Some (fu @ fv)"
        "map groups fu = map groups fu0" "map groups fv = map groups found_v"
      by blast
    have u: "exec_all r u = Some (m # fu0)" using Some ne ih(1) by (subst exec_all.simps) simp
    have "exec r (u @ c # v) = Some (m\<lparr>after := after m @ c # v\<rparr>)"
      using loc Some by simp
    then have "exec_all r (u @ c # v) = Some ((m\<lparr>after := after m @ c # v\<rparr> # fu) @ fv)"
      using ne ih(2) by (subst exec_all.simps) simp
    moreover have "map groups (m\<lparr>after := after m @ c # v\<rparr> # fu) = map groups (m # fu0)"
      using ih(3) by simp
    ultimately show ?thesis using u ih(4) by blast
  qed
qed

subsection \<open>The range loop\<close>

lemma round_double_exact: "n \<le> 2 ^ 53 \<Longrightarrow> round_double n = Num n"
  by (simp add: round_double_def)

text \<open>Below \<open>2^53\<close> the loop counts as the integers do, as long as the array can grow.\<close>

lemma for_lines_upt:
  "e < 2 ^ 53 \<Longrightarrow> length pushed + (Suc e - s) \<le> limit \<Longrightarrow>
   for_lines limit (Num s) (Num e) pushed = Inr (pushed @ map Num [s..<Suc e])"
proof (induction "Suc e - s" arbitrary: s pushed)
  case 0
  then have "\<not> less_eq_number (Num s) (Num e)" by simp
  moreover have "[s..<Suc e] = []" using 0 by simp
  ultimately show ?case by (subst for_lines.simps) simp
next
  case (Suc n)
  then have le: "s \<le> e" and room: "length pushed < limit" by simp_all
  from le Suc.prems(1) have "increment (Num s) = Num (Suc s)"
    by (simp add: round_double_exact)
  with le room have "for_lines limit (Num s) (Num e) pushed
      = for_lines limit (Num (Suc s)) (Num e) (pushed @ [Num s])"
    by (subst for_lines.simps) (simp add: push_def)
  also have "\<dots> = Inr ((pushed @ [Num s]) @ map Num [Suc s..<Suc e])"
    using Suc.hyps(2) Suc.prems by (intro Suc.hyps(1)) simp_all
  also have "(pushed @ [Num s]) @ map Num [Suc s..<Suc e] = pushed @ map Num [s..<Suc e]"
    using le by (simp add: upt_conv_Cons)
  finally show ?case .
qed

text \<open>A counter that \<open>i++\<close> does not move never passes \<open>endLine\<close>: the array overflows.\<close>

lemma for_lines_stall:
  "less_eq_number i endLine \<Longrightarrow> increment i = i \<Longrightarrow>
   for_lines limit i endLine pushed = Inl RangeError"
proof (induction "limit - length pushed" arbitrary: pushed)
  case 0
  then show ?case by (subst for_lines.simps) (simp add: push_def)
next
  case (Suc n)
  then have "for_lines limit i endLine pushed = for_lines limit i endLine (pushed @ [i])"
    by (subst for_lines.simps) (simp add: push_def)
  also have "\<dots> = Inl RangeError"
    using Suc.hyps(2) Suc.prems by (intro Suc.hyps(1)) simp_all
  finally show ?case .
qed

text \<open>A range longer than the array can grow ends in the same way.\<close>

lemma for_lines_overflow:
  "s \<le> e \<Longrightarrow> e < 2 ^ 53 \<Longrightarrow> limit < length pushed + (Suc e - s) \<Longrightarrow>
   for_lines limit (Num s) (Num e) pushed = Inl RangeError"
proof (induction "limit - length pushed" arbitrary: s pushed)
  case 0
  then have "\<not> length pushed < limit" by simp
  with 0(2) show ?case by (subst for_lines.simps) (simp add: push_def)
next
  case (Suc n)
  then have room: "length pushed < limit" by simp
  with Suc.prems(3) have next_le: "Suc s \<le> e" by simp
  from Suc.prems(1,2) have "increment (Num s) = Num (Suc s)"
    by (simp add: round_double_exact)
  with Suc.prems(1) room have "for_lines limit (Num s) (Num e) pushed
      = for_lines limit (Num (Suc s)) (Num e) (pushed @ [Num s])"
    by (subst for_lines.simps) (simp add: push_def)
  also have "\<dots> = Inl RangeError"
    using Suc.hyps(2) Suc.prems next_le by (intro Suc.hyps(1)) simp_all
  finally show ?case .
qed

text \<open>What the loop leaves in the array when it ends: each number is the one before it
  after \<open>i++\<close>, and none is \<open>Infinity\<close>.\<close>

lemma successive_snoc:
  "successive xs \<Longrightarrow> xs = [] \<or> increment (last xs) = i \<Longrightarrow> successive (xs @ [i])"
  by (induction xs rule: successive.induct) auto

lemma for_lines_result:
  "for_lines limit i endLine pushed = Inr numbers \<Longrightarrow>
   successive pushed \<Longrightarrow> pushed = [] \<or> increment (last pushed) = i \<Longrightarrow>
   Infinity \<notin> set pushed \<Longrightarrow>
   successive numbers \<and> Infinity \<notin> set numbers"
proof (induction limit i endLine pushed rule: for_lines.induct)
  case (1 limit i endLine pushed)
  show ?case
  proof (cases "less_eq_number i endLine")
    case False
    with "1.prems"(1) have "numbers = pushed" by (subst (asm) for_lines.simps) simp
    with "1.prems" show ?thesis by simp
  next
    case True
    with "1.prems"(1) have room: "length pushed < limit"
      and rec: "for_lines limit (increment i) endLine (pushed @ [i]) = Inr numbers"
      by (subst (asm) for_lines.simps, simp add: push_def split: if_splits)+
    have fin: "i \<noteq> Infinity"
    proof
      assume "i = Infinity"
      with True have "for_lines limit i endLine pushed = Inl RangeError"
        by (intro for_lines_stall) simp_all
      with "1.prems"(1) show False by simp
    qed
    have p: "push limit pushed i = Inr (pushed @ [i])" using room by (simp add: push_def)
    show ?thesis
    proof (rule "1.IH"[OF True p rec])
      show "successive (pushed @ [i])" using "1.prems"(2,3) by (rule successive_snoc)
      show "pushed @ [i] = [] \<or> increment (last (pushed @ [i])) = increment i" by simp
      show "Infinity \<notin> set (pushed @ [i])" using "1.prems"(4) fin by auto
    qed
  qed
qed

subsection \<open>The two passes\<close>

lemma lineRef_plain:
  assumes "plain limit m"
  shows "lineRef limit m = Inr (reference m)"
proof -
  from assms have p: "start_of m \<le> 2 ^ 53" "end_of m \<le> 2 ^ 53" "end_of m < 2 ^ 53"
    "length ([] :: number list) + (Suc (end_of m) - start_of m) \<le> limit"
    by (simp_all add: plain_def)
  have s: "parseInt10 (group_text m 2) = Num (start_of m)"
    using p(1) by (simp add: parseInt10_def start_of_def round_double_exact)
  have e: "(if group_text m 3 \<noteq> [] then parseInt10 (group_text m 3) else Num (start_of m))
      = Num (end_of m)"
    using p(2) by (cases "group_text m 3 = []")
      (simp_all add: parseInt10_def end_of_def round_double_exact)
  show ?thesis
    unfolding lineRef_def Let_def s e for_lines_upt[OF p(3,4)]
    by (simp add: reference_def)
qed

text \<open>The first loop reads nothing of a match but its groups.\<close>

lemma group_text_cong: "groups m = groups m' \<Longrightarrow> group_text m = group_text m'"
  by (rule ext) (simp add: group_text_def group_def)

lemma lineRef_cong:
  assumes "groups m = groups m'"
  shows "lineRef limit m = lineRef limit m'"
  unfolding lineRef_def group_text_cong[OF assms] ..

lemma plain_cong:
  assumes "groups m = groups m'"
  shows "plain limit m = plain limit m'"
  unfolding plain_def start_of_def end_of_def group_text_cong[OF assms] ..

lemma reference_cong:
  assumes "groups m = groups m'"
  shows "reference m = reference m'"
  unfolding reference_def start_of_def end_of_def group_text_cong[OF assms] ..

lemma same_groups:
  "map groups found = map groups found' \<Longrightarrow>
   list_all (plain limit) found = list_all (plain limit) found'
   \<and> map reference found = map reference found' \<and> length found = length found'"
proof (induction found arbitrary: found')
  case Nil
  then show ?case by simp
next
  case (Cons m found)
  then obtain m' later where f: "found' = m' # later" "groups m = groups m'"
    "map groups found = map groups later" by (cases found') auto
  from Cons.IH[OF f(3)] plain_cong[OF f(2)] reference_cong[OF f(2)] f(1) show ?case by simp
qed

text \<open>Plain matches are pushed one after the other, while the list has room.\<close>

lemma linePass_plain:
  "list_all (plain limit) found \<Longrightarrow> length refs + length found \<le> limit \<Longrightarrow>
   linePass limit refs (found @ later) = linePass limit (refs @ map reference found) later"
proof (induction found arbitrary: refs)
  case Nil
  then show ?case by simp
next
  case (Cons m found)
  then have m: "lineRef limit m = Inr (reference m)" and room: "length refs < limit"
    by (simp_all add: lineRef_plain)
  then have "linePass limit refs ((m # found) @ later)
      = linePass limit (refs @ [reference m]) (found @ later)"
    by (simp add: push_def)
  also have "\<dots> = linePass limit ((refs @ [reference m]) @ map reference found) later"
    using Cons.prems by (intro Cons.IH) simp_all
  finally show ?case by simp
qed

text \<open>The first loop only appends, and only what \<open>lineRef\<close> makes of a match.\<close>

lemma linePass_appends:
  "\<exists>extra. linePass limit refs found = refs @ extra
     \<and> (\<forall>r \<in> set extra. \<exists>m \<in> set found. lineRef limit m = Inr r)"
proof (induction found arbitrary: refs)
  case Nil
  then show ?case by simp
next
  case (Cons m found)
  show ?case
  proof (cases "lineRef limit m")
    case (Inl e)
    then show ?thesis by simp
  next
    case (Inr r)
    show ?thesis
    proof (cases "length refs < limit")
      case False
      with Inr show ?thesis by (simp add: push_def)
    next
      case True
      from Cons.IH[of "refs @ [r]"] obtain extra where
        e: "linePass limit (refs @ [r]) found = (refs @ [r]) @ extra"
           "\<forall>x \<in> set extra. \<exists>m \<in> set found. lineRef limit m = Inr x" by blast
      have "linePass limit refs (m # found) = refs @ (r # extra)"
        using Inr True e(1) by (simp add: push_def)
      moreover have "\<forall>x \<in> set (r # extra). \<exists>m' \<in> set (m # found). lineRef limit m' = Inr x"
        using Inr e(2) by auto
      ultimately show ?thesis by blast
    qed
  qed
qed

text \<open>The second loop only appends, and only references without line numbers for file
  names of code fences that are not yet listed.\<close>

lemma blockPass_appends:
  "\<exists>extra. blockPass limit refs found = refs @ extra \<and> distinct (map path extra)
     \<and> (\<forall>r \<in> set extra. lineNumbers r = [] \<and> path r \<noteq> [] \<and> path r \<notin> path ` set refs
           \<and> path r \<in> (\<lambda>m. group_text m 1) ` set found)"
proof (induction found arbitrary: refs)
  case Nil
  then show ?case by simp
next
  case (Cons m found)
  let ?new = "\<lparr>path = group_text m 1, lineNumbers = []\<rparr>"
  show ?case
  proof (cases "group_text m 1 \<noteq> [] \<and> \<not> list_ex (\<lambda>ref. path ref = group_text m 1) refs")
    case False
    then have "blockPass limit refs (m # found) = blockPass limit refs found"
      by (auto simp: Let_def)
    with Cons.IH[of refs] show ?thesis by auto
  next
    case True
    show ?thesis
    proof (cases "length refs < limit")
      case False
      with True have "blockPass limit refs (m # found) = refs @ []"
        by (simp add: Let_def push_def)
      then show ?thesis by (intro exI[of _ "[]"]) simp
    next
      case room: True
      from Cons.IH[of "refs @ [?new]"] obtain extra where
        e: "blockPass limit (refs @ [?new]) found = (refs @ [?new]) @ extra"
           "distinct (map path extra)"
           "\<forall>r \<in> set extra. lineNumbers r = [] \<and> path r \<noteq> []
               \<and> path r \<notin> path ` set (refs @ [?new])
               \<and> path r \<in> (\<lambda>m. group_text m 1) ` set found" by blast
      have b: "blockPass limit refs (m # found) = refs @ (?new # extra)"
        using True room e(1) by (simp add: Let_def push_def)
      have fresh: "group_text m 1 \<notin> path ` set refs" using True by (auto simp: list_ex_iff)
      have "group_text m 1 \<notin> path ` set extra" using e(3) by auto
      then have d: "distinct (map path (?new # extra))" using e(2) by simp
      have "\<forall>r \<in> set (?new # extra). lineNumbers r = [] \<and> path r \<noteq> []
               \<and> path r \<notin> path ` set refs
               \<and> path r \<in> (\<lambda>m. group_text m 1) ` set (m # found)"
        using True fresh e(3) by auto
      with b d show ?thesis by blast
    qed
  qed
qed

lemma exec_all_empty: "0 < min_len r \<Longrightarrow> exec_all r [] = Some []"
proof -
  assume "0 < min_len r"
  then have "exec r [] = None" using ms_empty_input[of r "[]"] by (subst exec.simps) simp
  then show ?thesis by (subst exec_all.simps) simp
qed

text \<open>Both searches of \<open>extractFileReferences\<close> end, on every text.\<close>

lemma extractFileReferences_body:
  "\<exists>lineMatches blockMatches.
     exec_all fileLinePattern body = Some lineMatches
     \<and> exec_all codeBlockPattern body = Some blockMatches
     \<and> extractFileReferences limit (Some body)
          = Some (blockPass limit (linePass limit [] lineMatches) blockMatches)"
proof (cases "body = []")
  case True
  then show ?thesis
    using exec_all_empty[of fileLinePattern] exec_all_empty[of codeBlockPattern]
      min_len_fileLinePattern min_len_codeBlockPattern
    by (simp add: extractFileReferences_def)
next
  case False
  obtain lm where lm: "exec_all fileLinePattern body = Some lm"
    using exec_all_total[of fileLinePattern body] min_len_fileLinePattern by auto
  obtain bm where bm: "exec_all codeBlockPattern body = Some bm"
    using exec_all_total[of codeBlockPattern body] min_len_codeBlockPattern by auto
  show ?thesis using False lm bm by (simp add: extractFileReferences_def)
qed

lemma extractFileReferences_passes:
  "\<exists>extra. extractFileReferences limit (Some body) = Some (lineRefs limit body @ extra)
     \<and> distinct (map path extra)
     \<and> (\<forall>r \<in> set extra. lineNumbers r = [] \<and> path r \<noteq> []
           \<and> path r \<notin> path ` set (lineRefs limit body)
           \<and> path r \<in> set (blockAnnotations body))"
proof -
  from extractFileReferences_body[of body limit] obtain lm bm where
    b: "exec_all fileLinePattern body = Some lm" "exec_all codeBlockPattern body = Some bm"
       "extractFileReferences limit (Some body) = Some (blockPass limit (linePass limit [] lm) bm)"
    by blast
  from blockPass_appends[of limit "linePass limit [] lm" bm] obtain extra where
    e: "blockPass limit (linePass limit [] lm) bm = linePass limit [] lm @ extra"
       "distinct (map path extra)"
       "\<forall>r \<in> set extra. lineNumbers r = [] \<and> path r \<noteq> []
           \<and> path r \<notin> path ` set (linePass limit [] lm)
           \<and> path r \<in> (\<lambda>m. group_text m 1) ` set bm"
    by blast
  have "\<forall>r \<in> set extra. path r \<in> set (blockAnnotations body)"
    using e(3) b(2) by (auto simp: blockAnnotations_def)
  with b e show ?thesis by (auto simp: lineRefs_def)
qed

lemma avoids_fileLinePattern:
  "\<not> is_pathchar c \<Longrightarrow> c \<noteq> CHR '':'' \<Longrightarrow> avoids c fileLinePattern"
  using alpha_pathchar[of c] digit_pathchar[of c]
  by (auto simp: fileLinePattern_def pathPattern_def Plus_def Opt_def Ch_def is_pathchar_def)

text \<open>A pattern leaves alone the groups it does not contain.\<close>

lemma star_iter_caps:
  "(\<And>st st'. st' \<in> set (f st) \<Longrightarrow> map_of (snd st') i = map_of (snd st) i) \<Longrightarrow>
   st' \<in> set (star_iter f g st) \<Longrightarrow> map_of (snd st') i = map_of (snd st) i"
proof (induction f g st arbitrary: st' rule: star_iter.induct)
  case (1 f greedy st)
  from "1.prems"(2) have "st' = st \<or> (\<exists>y \<in> set (f st). length (fst y) < length (fst st) \<and> st' \<in> set (star_iter f greedy y))"
    by (subst (asm) star_iter.simps) (auto simp: Let_def split: if_splits)
  then show ?case
  proof
    assume "st' = st" then show ?thesis by simp
  next
    assume "\<exists>y \<in> set (f st). length (fst y) < length (fst st) \<and> st' \<in> set (star_iter f greedy y)"
    then obtain y where y: "y \<in> set (f st)" "length (fst y) < length (fst st)" "st' \<in> set (star_iter f greedy y)"
      by blast
    have "map_of (snd st') i = map_of (snd y) i" using "1.IH"[of y st'] y "1.prems"(1) by simp
    moreover have "map_of (snd y) i = map_of (snd st) i" using "1.prems"(1) y(1) by blast
    ultimately show ?thesis by simp
  qed
qed

lemma ms_caps:
  "st' \<in> set (ms r st) \<Longrightarrow> i \<notin> group_ids r \<Longrightarrow> map_of (snd st') i = map_of (snd st) i"
proof (induction r arbitrary: st st')
  case (Chr P)
  then show ?case by (cases "fst st") (auto split: if_splits)
next
  case (Seq r1 r2)
  from Seq.prems obtain y where y: "y \<in> set (ms r1 st)" "st' \<in> set (ms r2 y)" by auto
  from Seq.IH(1)[OF y(1)] Seq.IH(2)[OF y(2)] Seq.prems(2) show ?case by simp
next
  case (Alt r1 r2)
  then show ?case by fastforce
next
  case (Star g r)
  then show ?case using star_iter_caps[of "ms r" i st' g st] by simp
next
  case (Group j r)
  from Group.prems obtain y where "y \<in> set (ms r st)" "snd st' = (j, take (length (fst st) - length (fst y)) (fst st)) # snd y" by auto
  with Group.IH[of y st] Group.prems(2) show ?case by simp
next
  case (Look r)
  from Look.prems(1) obtain y ys where y: "ms r st = y # ys" "snd st' = snd y"
    by (cases "ms r st") auto
  then have "y \<in> set (ms r st)" by simp
  from Look.IH[OF this] Look.prems(2) y(2) show ?case by simp
qed (auto split: if_splits)

lemma min_len_pathPattern: "min_len pathPattern = 3"
  by (simp add: pathPattern_def Plus_def Ch_def)

text \<open>Group 1 of the line pattern is never empty.\<close>

lemma fileLinePattern_group1:
  assumes "st \<in> set (ms fileLinePattern (t, []))"
  shows "\<exists>p. map_of (snd st) 1 = Some p \<and> p \<noteq> []"
proof -
  let ?R = "Seq (Ch CHR '':'')
         (Seq (Group 2 (Plus True (Chr is_digit)))
           (Opt (Seq (Ch CHR ''-'') (Group 3 (Plus True (Chr is_digit))))))"
  from assms obtain y where y: "y \<in> set (ms (Group 1 pathPattern) (t, []))" "st \<in> set (ms ?R y)"
    by (auto simp: fileLinePattern_def)
  from y(1) obtain y' where y': "y' \<in> set (ms pathPattern (t, []))"
    "snd y = (1, take (length t - length (fst y')) t) # snd y'" by auto
  from ms_min_len[OF y'(1)] have "length (fst y') + 3 \<le> length t"
    by (simp add: min_len_pathPattern)
  then have "take (length t - length (fst y')) t \<noteq> []" by auto
  moreover have "map_of (snd st) 1 = map_of (snd y) 1"
    by (rule ms_caps[OF y(2)]) (simp add: Plus_def Opt_def Ch_def)
  ultimately show ?thesis using y'(2) by simp
qed

lemma exec_all_members:
  "exec_all r s = Some found \<Longrightarrow> m \<in> set found \<Longrightarrow> \<exists>s'. exec r s' = Some m"
proof (induction r s arbitrary: found rule: exec_all.induct)
  case (1 r s)
  show ?case
  proof (cases "exec r s")
    case None
    with "1.prems" show ?thesis by (subst (asm) exec_all.simps) simp
  next
    case (Some m0)
    with "1.prems"(1) have ne: "matched m0 \<noteq> []"
      by (subst (asm) exec_all.simps) (auto split: if_splits)
    with "1.prems"(1) Some obtain rest where rest: "exec_all r (after m0) = Some rest" "found = m0 # rest"
      by (subst (asm) exec_all.simps) auto
    show ?thesis
    proof (cases "m = m0")
      case True
      then show ?thesis using Some by blast
    next
      case False
      then have "m \<in> set rest" using "1.prems"(2) rest(2) by simp
      from "1.IH"[OF Some ne rest(1) this] show ?thesis .
    qed
  qed
qed

lemma lineRef_path_nonempty:
  assumes "exec_all fileLinePattern s = Some found" "m \<in> set found" "lineRef limit m = Inr r"
  shows "path r \<noteq> []"
proof -
  from exec_all_members[OF assms(1,2)] obtain s' where "exec fileLinePattern s' = Some m" by blast
  from exec_first[OF this] obtain t st sts where
    t: "ms fileLinePattern (t, []) = st # sts" "groups m = snd st" by blast
  then have "st \<in> set (ms fileLinePattern (t, []))" by simp
  from fileLinePattern_group1[OF this] t(2) have "group_text m 1 \<noteq> []"
    by (auto simp: group_text_def group_def)
  moreover have "path r = group_text m 1"
    using assms(3) by (auto simp: lineRef_def Let_def split: sum.splits)
  ultimately show ?thesis by simp
qed

lemma distinct_singleton: "distinct xs \<Longrightarrow> set xs = {a} \<Longrightarrow> xs = [a]"
  by (cases xs) (auto simp: insert_eq_iff dest: subset_singletonD)

subsection \<open>A token in a text\<close>

text \<open>
  A token on which the line pattern first matches with the groups \<open>G\<close>, standing at the
  start of the text or after a character that cannot be part of a match, is found by the
  first loop with these groups.  If the loop gets through the text before the token,
  what \<open>lineRef\<close> makes of the token is in the result.
\<close>

lemma token_found:
  assumes f: "first fileLinePattern (tok @ post, []) = Some (post, G)" and pre: "token_start pre"
    and clear: "passable limit pre"
    and r: "\<And>m. groups m = G \<Longrightarrow> lineRef limit m = Inr r"
  shows "\<exists>refs. extractFileReferences limit (Some (pre @ tok @ post)) = Some refs \<and> r \<in> set refs"
proof -
  from exec_of_first[OF f] have e: "exec fileLinePattern (tok @ post)
      = Some \<lparr>lead = [], matched = tok, groups = G, after = post\<rparr>" by simp
  then have ne: "tok \<noteq> []" using exec_matched_nonempty[of fileLinePattern "tok @ post"]
    min_len_fileLinePattern by fastforce
  obtain rest where rest: "exec_all fileLinePattern post = Some rest"
    using exec_all_total[of fileLinePattern post] min_len_fileLinePattern by auto
  let ?m0 = "\<lparr>lead = [], matched = tok, groups = G, after = post\<rparr>"
  have all0: "exec_all fileLinePattern (tok @ post) = Some (?m0 # rest)"
    using e ne rest by (subst exec_all.simps) simp
  have none: "exec_all fileLinePattern [] = Some []"
    using exec_all_empty[of fileLinePattern] min_len_fileLinePattern by simp
  have "\<exists>before m later. exec_all fileLinePattern (pre @ tok @ post) = Some (before @ m # later)
           \<and> groups m = G \<and> list_all (plain limit) before \<and> length before < limit"
  proof (cases "pre = []")
    case True
    with clear none have "0 < limit" by (simp add: passable_def)
    with True all0 show ?thesis by (intro exI[of _ "[]"]) auto
  next
    case False
    then obtain u c where u: "pre = u @ [c]" by (cases pre rule: rev_cases) auto
    with pre have av: "avoids c fileLinePattern"
      by (simp add: token_start_def avoids_fileLinePattern)
    have pos: "0 < min_len fileLinePattern" using min_len_fileLinePattern by simp
    from exec_all_after[OF av pos all0, of u] obtain fu fu' fv where
      fv: "exec_all fileLinePattern u = Some fu"
          "exec_all fileLinePattern (u @ c # tok @ post) = Some (fu' @ fv)"
          "map groups fu' = map groups fu" "map groups fv = map groups (?m0 # rest)"
      by blast
    from exec_all_after[OF av pos none, of u] fv(1) obtain gu gv where
      gv: "exec_all fileLinePattern (u @ [c]) = Some (gu @ gv)"
          "map groups gu = map groups fu" "map groups gv = map groups []"
      by auto
    from gv(3) have "gv = []" by simp
    with clear gv(1) u have "list_all (plain limit) gu" "length gu < limit"
      by (simp_all add: passable_def)
    moreover have "map groups gu = map groups fu'" using gv(2) fv(3) by simp
    ultimately have p: "list_all (plain limit) fu'" "length fu' < limit"
      using same_groups[of gu fu' limit] by simp_all
    from fv(4) obtain m fv' where "fv = m # fv'" "groups m = G" by (cases fv) auto
    with fv(2) u p show ?thesis by auto
  qed
  then obtain before m later where found:
    "exec_all fileLinePattern (pre @ tok @ post) = Some (before @ m # later)"
    "groups m = G" "list_all (plain limit) before" "length before < limit" by blast
  have "linePass limit [] (before @ m # later) = linePass limit ([] @ map reference before) (m # later)"
    using found(3,4) by (intro linePass_plain) simp_all
  also have "\<dots> = linePass limit (map reference before @ [r]) later"
    using r[OF found(2)] found(4) by (simp add: push_def)
  finally have "r \<in> set (linePass limit [] (before @ m # later))"
    using linePass_appends[of limit "map reference before @ [r]" later] by auto
  moreover from extractFileReferences_body[of "pre @ tok @ post" limit] found(1) obtain bm where
    "extractFileReferences limit (Some (pre @ tok @ post))
       = Some (blockPass limit (linePass limit [] (before @ m # later)) bm)" by auto
  ultimately show ?thesis
    using blockPass_appends[of limit "linePass limit [] (before @ m # later)" bm] by auto
qed

lemma lineRef_groups:
  "groups m = [(3, d2), (2, d1), (1, p)] \<Longrightarrow> d2 \<noteq> [] \<Longrightarrow>
   lineRef limit m =
     (case for_lines limit (parseInt10 d1) (parseInt10 d2) [] of
        Inl e \<Rightarrow> Inl e | Inr numbers \<Rightarrow> Inr \<lparr>path = p, lineNumbers = numbers\<rparr>)"
  "groups m = [(2, d1), (1, p)] \<Longrightarrow>
   lineRef limit m =
     (case for_lines limit (parseInt10 d1) (parseInt10 d1) [] of
        Inl e \<Rightarrow> Inl e | Inr numbers \<Rightarrow> Inr \<lparr>path = p, lineNumbers = numbers\<rparr>)"
  by (simp_all add: lineRef_def group_text_def group_def Let_def)

lemma parseInt10_exact: "decimal d \<le> 2 ^ 53 \<Longrightarrow> parseInt10 d = Num (decimal d)"
  by (simp add: parseInt10_def round_double_exact)

lemma range_token_reference:
  assumes "stem \<noteq> []" "list_all is_pathchar stem" "ext \<noteq> []" "list_all is_alpha ext"
    and "digits d1" "digits d2" "token_start pre" "passable limit pre"
    and "post = [] \<or> \<not> is_digit (hd post)"
    and "for_lines limit (parseInt10 d1) (parseInt10 d2) [] = Inr numbers"
  shows "\<exists>refs. extractFileReferences limit
             (Some (pre @ (stem @ ''.'' @ ext @ '':'' @ d1 @ ''-'' @ d2) @ post)) = Some refs
           \<and> \<lparr>path = stem @ ''.'' @ ext, lineNumbers = numbers\<rparr> \<in> set refs"
proof -
  have f: "first fileLinePattern ((stem @ ''.'' @ ext @ '':'' @ d1 @ ''-'' @ d2) @ post, [])
      = Some (post, [(3, d2), (2, d1), (1, stem @ ''.'' @ ext)])"
    using first_line_range[of stem ext d1 d2 post] assms by (simp add: digits_def list_all_iff)
  have "d2 \<noteq> []" using assms(6) by (simp add: digits_def)
  then have "lineRef limit m = Inr \<lparr>path = stem @ ''.'' @ ext, lineNumbers = numbers\<rparr>"
    if "groups m = [(3, d2), (2, d1), (1, stem @ ''.'' @ ext)]" for m
    using lineRef_groups(1)[OF that] assms(10) by simp
  from token_found[OF f assms(7,8) this] show ?thesis by simp
qed

lemma single_token_reference:
  assumes "stem \<noteq> []" "list_all is_pathchar stem" "ext \<noteq> []" "list_all is_alpha ext"
    and "digits d1" "token_start pre" "passable limit pre"
    and "post = [] \<or> \<not> is_digit (hd post)" "\<not> range_follows post"
    and "for_lines limit (parseInt10 d1) (parseInt10 d1) [] = Inr numbers"
  shows "\<exists>refs. extractFileReferences limit
             (Some (pre @ (stem @ ''.'' @ ext @ '':'' @ d1) @ post)) = Some refs
           \<and> \<lparr>path = stem @ ''.'' @ ext, lineNumbers = numbers\<rparr> \<in> set refs"
proof -
  have f: "first fileLinePattern ((stem @ ''.'' @ ext @ '':'' @ d1) @ post, [])
      = Some (post, [(2, d1), (1, stem @ ''.'' @ ext)])"
    using first_line_single[of stem ext d1 post] assms by (simp add: digits_def list_all_iff)
  have "lineRef limit m = Inr \<lparr>path = stem @ ''.'' @ ext, lineNumbers = numbers\<rparr>"
    if "groups m = [(2, d1), (1, stem @ ''.'' @ ext)]" for m
    using lineRef_groups(2)[OF that] assms(10) by simp
  from token_found[OF f assms(6,7) this] show ?thesis by simp
qed

subsection \<open>Single matches\<close>

lemma less_eq_number_refl: "less_eq_number i i"
  by (cases i) simp_all

lemma lineRef_single:
  assumes "groups m = [(2, d1), (1, p)]" "decimal d1 < 2 ^ 53" "0 < limit"
  shows "lineRef limit m = Inr \<lparr>path = p, lineNumbers = [Num (decimal d1)]\<rparr>"
proof -
  have "for_lines limit (Num (decimal d1)) (Num (decimal d1)) []
      = Inr ([] @ map Num [decimal d1..<Suc (decimal d1)])"
    using assms(2,3) by (intro for_lines_upt) simp_all
  then show ?thesis
    using lineRef_groups(2)[OF assms(1), of limit] assms(2) by (simp add: parseInt10_exact)
qed

lemma lineRef_stall:
  assumes "groups m = [(2, d1), (1, p)]" "increment (parseInt10 d1) = parseInt10 d1"
  shows "lineRef limit m = Inl RangeError"
  using lineRef_groups(2)[OF assms(1), of limit]
    for_lines_stall[OF less_eq_number_refl assms(2), of limit "[]"]
  by simp

text \<open>\<open>9007199254740993\<close> is \<open>2^53 + 1\<close>: as a double it is \<open>2^53\<close>, and so is \<open>2^53 + 1\<close>
  again after \<open>i++\<close>.\<close>

lemma parseInt10_2_53_1: "parseInt10 ''9007199254740993'' = Num 9007199254740992"
  by (simp add: parseInt10_def decimal_def round_double_def bits.simps Let_def)

lemma extractFileReferences_eval:
  assumes "body \<noteq> []" "exec_all fileLinePattern body = Some lineMatches"
    "exec_all codeBlockPattern body = Some blockMatches"
  shows "extractFileReferences limit (Some body)
    = Some (blockPass limit (linePass limit [] lineMatches) blockMatches)"
  using assms by (simp add: extractFileReferences_def)

lemma round_double_2_53_1: "round_double 9007199254740993 = Num 9007199254740992"
  by (simp add: round_double_def bits.simps Let_def)

section \<open>The claims about extractFileReferences\<close>

text \<open>
  C1.  The claim: no two references returned by \<open>extractFileReferences\<close> share a path; a
  text that names the same path twice in the form \<open>path:line\<close> yields one entry.  The
  first loop pushes a reference for every match without looking at the list (only the
  second loop asks \<open>fileReferences.some(...)\<close> first), so the text \<open>a.js:1 a.js:2\<close>
  yields two entries with the path \<open>a.js\<close>, whenever an array can hold two elements.
\<close>

theorem C1_same_path_twice:
  assumes "2 \<le> limit"
  shows "extractFileReferences limit (Some ''a.js:1 a.js:2'') =
     Some [\<lparr>path = ''a.js'', lineNumbers = [Num 1]\<rparr>, \<lparr>path = ''a.js'', lineNumbers = [Num 2]\<rparr>]"
proof -
  let ?m1 = "\<lparr>lead = [], matched = ''a.js:1'', groups = [(2, ''1''), (1, ''a.js'')],
      after = '' a.js:2''\<rparr>"
  let ?m2 = "\<lparr>lead = '' '', matched = ''a.js:2'', groups = [(2, ''2''), (1, ''a.js'')],
      after = []\<rparr>"
  have l: "exec_all fileLinePattern ''a.js:1 a.js:2'' = Some [?m1, ?m2]" by code_simp
  have b: "exec_all codeBlockPattern ''a.js:1 a.js:2'' = Some []" by code_simp
  have d: "decimal ''1'' = 1" "decimal ''2'' = 2" by (simp_all add: decimal_def)
  have "lineRef limit ?m1 = Inr \<lparr>path = ''a.js'', lineNumbers = [Num 1]\<rparr>"
    "lineRef limit ?m2 = Inr \<lparr>path = ''a.js'', lineNumbers = [Num 2]\<rparr>"
    using lineRef_single[of ?m1 "''1''" "''a.js''" limit]
      lineRef_single[of ?m2 "''2''" "''a.js''" limit] assms d by simp_all
  then have "linePass limit [] [?m1, ?m2]
      = [\<lparr>path = ''a.js'', lineNumbers = [Num 1]\<rparr>, \<lparr>path = ''a.js'', lineNumbers = [Num 2]\<rparr>]"
    using assms by (simp add: push_def)
  then show ?thesis using extractFileReferences_eval[OF _ l b, of limit] by simp
qed

theorem C1_same_path_twice_witness:
  "(2 :: nat) \<le> 4294967295
   \<and> extractFileReferences 4294967295 (Some ''a.js:1 a.js:2'') =
       Some [\<lparr>path = ''a.js'', lineNumbers = [Num 1]\<rparr>, \<lparr>path = ''a.js'', lineNumbers = [Num 2]\<rparr>]"
  using C1_same_path_twice[of 4294967295] by simp

text \<open>
  C5.  The claim: every text that contains a token \<open>path:start-end\<close> yields a reference
  with the full range.  The first loop runs inside a \<open>try\<close> whose \<open>catch\<close> ends it: a
  token whose range cannot be written into an array takes every later token with it.
  In \<open>x.js:9007199254740993 a.js:10-12\<close> the first line number is \<open>2^53\<close> as a double
  and \<open>i++\<close> leaves it there; the array grows until \<open>push\<close> throws, and the token
  \<open>a.js:10-12\<close> is never read.
\<close>

theorem C5_token_after_overflow:
  "extractFileReferences 4294967295 (Some ''x.js:9007199254740993 a.js:10-12'') = Some []"
proof -
  let ?body = "''x.js:9007199254740993 a.js:10-12''"
  let ?m1 = "\<lparr>lead = [], matched = ''x.js:9007199254740993'',
      groups = [(2, ''9007199254740993''), (1, ''x.js'')], after = '' a.js:10-12''\<rparr>"
  let ?m2 = "\<lparr>lead = '' '', matched = ''a.js:10-12'',
      groups = [(3, ''12''), (2, ''10''), (1, ''a.js'')], after = []\<rparr>"
  have l: "exec_all fileLinePattern ?body = Some [?m1, ?m2]" by code_simp
  have b: "exec_all codeBlockPattern ?body = Some []" by code_simp
  have "lineRef 4294967295 ?m1 = Inl RangeError"
    by (rule lineRef_stall[of _ "''9007199254740993''" "''x.js''"])
      (simp_all add: parseInt10_2_53_1 round_double_2_53_1)
  then have "linePass 4294967295 [] [?m1, ?m2] = []" by simp
  then show ?thesis using extractFileReferences_eval[OF _ l b, of 4294967295] by simp
qed

text \<open>
  C5, as the code has it.  A text that contains the token \<open>stem.ext:d1-d2\<close> (the path made
  of path characters, a dot and an alphabetic extension; the token at the start of the
  text or after a character that is neither a path character nor a colon, and not
  followed by a further digit) yields a reference with that path and the line numbers
  \<open>d1, d1 + 1, ..., d2\<close>; the token \<open>stem.ext:d1\<close> (not followed by a digit or by a
  hyphen and a digit) yields exactly \<open>[d1]\<close>.  This holds when the numbers of the token
  are below \<open>2^53\<close>, its range is one that an array can hold, and the first loop gets
  through the text before the token: each earlier token has numbers below \<open>2^53\<close> and a
  range that an array can hold, and the list of references has room for one more.
\<close>

theorem C5_line_numbers_expanded:
  assumes "stem \<noteq> []" "list_all is_pathchar stem" "ext \<noteq> []" "list_all is_alpha ext"
    and "digits d1" "decimal d1 < 2 ^ 53"
    and "token_start pre" "passable limit pre" "post = [] \<or> \<not> is_digit (hd post)"
    and "case endLine of
           None \<Rightarrow> \<not> range_follows post
         | Some d2 \<Rightarrow> digits d2 \<and> decimal d2 < 2 ^ 53 \<and> decimal d2 - decimal d1 < limit"
  shows "\<exists>refs. extractFileReferences limit
             (Some (pre @ (stem @ ''.'' @ ext @ '':'' @ d1
                            @ (case endLine of None \<Rightarrow> [] | Some d2 \<Rightarrow> ''-'' @ d2)) @ post))
             = Some refs
           \<and> \<lparr>path = stem @ ''.'' @ ext,
                lineNumbers = (case endLine of
                                 None \<Rightarrow> [Num (decimal d1)]
                               | Some d2 \<Rightarrow> map Num [decimal d1..<Suc (decimal d2)])\<rparr> \<in> set refs"
proof (cases endLine)
  case None
  have "passable limit pre \<Longrightarrow> 0 < limit"
    by (auto simp: passable_def split: option.splits)
  with assms(8) have "0 < limit" by simp
  with assms(6) have "for_lines limit (Num (decimal d1)) (Num (decimal d1)) []
      = Inr ([] @ map Num [decimal d1..<Suc (decimal d1)])"
    by (intro for_lines_upt) simp_all
  then have "for_lines limit (parseInt10 d1) (parseInt10 d1) [] = Inr [Num (decimal d1)]"
    using assms(6) by (simp add: parseInt10_exact)
  from single_token_reference[OF assms(1-5) assms(7,8,9) _ this] None assms(10)
  show ?thesis by simp
next
  case (Some d2)
  with assms(10) have d2: "digits d2" "decimal d2 < 2 ^ 53" "decimal d2 - decimal d1 < limit"
    by simp_all
  then have "for_lines limit (Num (decimal d1)) (Num (decimal d2)) []
      = Inr ([] @ map Num [decimal d1..<Suc (decimal d2)])"
    by (intro for_lines_upt) simp_all
  then have "for_lines limit (parseInt10 d1) (parseInt10 d2) []
      = Inr (map Num [decimal d1..<Suc (decimal d2)])"
    using assms(6) d2(2) by (simp add: parseInt10_exact)
  from range_token_reference[OF assms(1-5) d2(1) assms(7,8,9) this] Some
  show ?thesis by simp
qed

theorem C5_line_numbers_expanded_witness:
  "(\<exists>refs. extractFileReferences 4294967295 (Some ''a/b/file.js:10-12'') = Some refs
      \<and> \<lparr>path = ''a/b/file.js'', lineNumbers = [Num 10, Num 11, Num 12]\<rparr> \<in> set refs)
   \<and> (\<exists>refs. extractFileReferences 4294967295 (Some ''x.js:7 and file.py:5, please'') = Some refs
      \<and> \<lparr>path = ''file.py'', lineNumbers = [Num 5]\<rparr> \<in> set refs)"
proof -
  have a: "list_all is_pathchar ''a/b/file''" "list_all is_alpha ''js''"
    "list_all is_pathchar ''file''" "list_all is_alpha ''py''"
    by (simp_all add: is_pathchar_def is_word_def is_alpha_def is_digit_def)
  have d: "digits ''10''" "digits ''12''" "digits ''5''"
    by (simp_all add: digits_def is_digit_def)
  have n: "decimal ''10'' = 10" "decimal ''12'' = 12" "decimal ''5'' = 5" "decimal ''7'' = 7"
    by (simp_all add: decimal_def)
  have s: "token_start []" "token_start ''x.js:7 and ''"
    by (simp_all add: token_start_def is_pathchar_def is_word_def is_alpha_def is_digit_def)
  have r: "\<not> range_follows '', please''" "\<not> is_digit (hd '', please'')"
    by (simp_all add: range_follows_def is_digit_def)
  have e: "exec_all fileLinePattern [] = Some []"
    "exec_all fileLinePattern ''x.js:7 and ''
      = Some [\<lparr>lead = [], matched = ''x.js:7'', groups = [(2, ''7''), (1, ''x.js'')],
               after = '' and ''\<rparr>]"
    by code_simp+
  have p: "passable 4294967295 []" "passable 4294967295 ''x.js:7 and ''"
    unfolding passable_def e
    by (simp_all add: plain_def start_of_def end_of_def group_text_def group_def n)
  have u: "[10..<Suc 12] = [10, 11, 12]" by (simp add: upt_rec)
  from C5_line_numbers_expanded[of "''a/b/file''" "''js''" "''10''" "[]" 4294967295 "[]" "Some ''12''"]
    C5_line_numbers_expanded[of "''file''" "''py''" "''5''" "''x.js:7 and ''" 4294967295
      "'', please''" None]
  show ?thesis using a d n s r p u by simp
qed

text \<open>
  C10.  The claim: a token \<open>path:start-end\<close> whose end line is smaller than its start
  line yields a reference without line numbers.  The loop compares doubles: in
  \<open>a.js:9007199254740993-9007199254740992\<close> both numbers are \<open>2^53\<close> as doubles, the
  loop body runs, \<open>i++\<close> leaves \<open>i\<close> where it is, and the \<open>RangeError\<close> of \<open>push\<close> ends
  the first loop before a reference is pushed.
\<close>

theorem C10_descending_digits_same_double:
  "extractFileReferences 4294967295 (Some ''a.js:9007199254740993-9007199254740992'') = Some []"
proof -
  let ?body = "''a.js:9007199254740993-9007199254740992''"
  let ?m = "\<lparr>lead = [], matched = ?body,
      groups = [(3, ''9007199254740992''), (2, ''9007199254740993''), (1, ''a.js'')],
      after = []\<rparr>"
  have l: "exec_all fileLinePattern ?body = Some [?m]" by code_simp
  have b: "exec_all codeBlockPattern ?body = Some []" by code_simp
  have e: "parseInt10 ''9007199254740992'' = Num 9007199254740992"
    by (simp add: parseInt10_def decimal_def round_double_def)
  have "for_lines 4294967295 (Num 9007199254740992) (Num 9007199254740992) [] = Inl RangeError"
    by (rule for_lines_stall) (simp_all add: round_double_2_53_1)
  then have "lineRef 4294967295 ?m = Inl RangeError"
    using lineRef_groups(1)[of ?m "''9007199254740992''" "''9007199254740993''" "''a.js''" 4294967295]
    by (simp add: parseInt10_2_53_1 e)
  then have "linePass 4294967295 [] [?m] = []" by simp
  then show ?thesis using extractFileReferences_eval[OF _ l b, of 4294967295] by simp
qed

text \<open>
  C10, as the code has it.  A token \<open>stem.ext:d1-d2\<close> whose end line is smaller than its
  start line as a number (for numbers up to \<open>2^53\<close>: as an integer) yields a reference
  for the path with no line numbers, since the loop body never runs; the token stands
  as in C5, after a text that the first loop gets through.
\<close>

theorem C10_descending_range_is_empty:
  assumes "stem \<noteq> []" "list_all is_pathchar stem" "ext \<noteq> []" "list_all is_alpha ext"
    and "digits d1" "digits d2" "\<not> less_eq_number (parseInt10 d1) (parseInt10 d2)"
    and "token_start pre" "passable limit pre" "post = [] \<or> \<not> is_digit (hd post)"
  shows "\<exists>refs. extractFileReferences limit
             (Some (pre @ (stem @ ''.'' @ ext @ '':'' @ d1 @ ''-'' @ d2) @ post)) = Some refs
           \<and> \<lparr>path = stem @ ''.'' @ ext, lineNumbers = []\<rparr> \<in> set refs"
proof -
  have "for_lines limit (parseInt10 d1) (parseInt10 d2) [] = Inr []"
    using assms(7) by (subst for_lines.simps) simp
  from range_token_reference[OF assms(1-6) assms(8,9,10) this] show ?thesis .
qed

theorem C10_descending_range_is_empty_witness:
  "\<not> less_eq_number (parseInt10 ''10'') (parseInt10 ''5'')
   \<and> (\<exists>refs. extractFileReferences 4294967295 (Some ''file.js:10-5'') = Some refs
      \<and> \<lparr>path = ''file.js'', lineNumbers = []\<rparr> \<in> set refs)"
proof -
  have a: "list_all is_pathchar ''file''" "list_all is_alpha ''js''"
    by (simp_all add: is_pathchar_def is_word_def is_alpha_def is_digit_def)
  have d: "digits ''10''" "digits ''5''"
    by (simp_all add: digits_def is_digit_def)
  have n: "parseInt10 ''10'' = Num 10" "parseInt10 ''5'' = Num 5"
    by (simp_all add: parseInt10_def decimal_def round_double_def)
  have e: "exec_all fileLinePattern [] = Some []" by code_simp
  have p: "passable 4294967295 []" unfolding passable_def e by simp
  from C10_descending_range_is_empty[of "''file''" "''js''" "''10''" "''5''" "[]" 4294967295 "[]"]
  show ?thesis using a d n p by (simp add: token_start_def)
qed

text \<open>With room for every file name, the second loop lists them all.\<close>

lemma blockPass_paths:
  "length refs + length (filter (\<lambda>a. a \<noteq> []) (map (\<lambda>m. group_text m 1) found)) \<le> limit \<Longrightarrow>
   path ` set (blockPass limit refs found)
     = path ` set refs \<union> set (filter (\<lambda>a. a \<noteq> []) (map (\<lambda>m. group_text m 1) found))"
proof (induction found arbitrary: refs)
  case Nil
  then show ?case by simp
next
  case (Cons m found)
  let ?names = "\<lambda>found. filter (\<lambda>a. a \<noteq> []) (map (\<lambda>m. group_text m 1) found)"
  let ?new = "\<lparr>path = group_text m 1, lineNumbers = []\<rparr>"
  show ?case
  proof (cases "group_text m 1 = []")
    case True
    then have "blockPass limit refs (m # found) = blockPass limit refs found" by simp
    moreover have "?names (m # found) = ?names found" using True by simp
    ultimately show ?thesis using Cons.IH[of refs] Cons.prems by simp
  next
    case False
    then have n: "?names (m # found) = group_text m 1 # ?names found" by simp
    show ?thesis
    proof (cases "list_ex (\<lambda>ref. path ref = group_text m 1) refs")
      case True
      then have "blockPass limit refs (m # found) = blockPass limit refs found"
        using False by (simp add: Let_def)
      moreover have "group_text m 1 \<in> path ` set refs"
        using True by (auto simp: list_ex_iff intro: rev_image_eqI)
      moreover have "length refs + length (?names found) \<le> limit" using Cons.prems n by simp
      ultimately show ?thesis using Cons.IH[of refs] n by auto
    next
      case new: False
      have room: "length refs < limit" using Cons.prems n by simp
      then have "blockPass limit refs (m # found) = blockPass limit (refs @ [?new]) found"
        using False new by (simp add: Let_def push_def)
      moreover have "length (refs @ [?new]) + length (?names found) \<le> limit"
        using Cons.prems n by simp
      ultimately show ?thesis using Cons.IH[of "refs @ [?new]"] n by auto
    qed
  qed
qed

lemma extractFileReferences_complete:
  assumes "length (lineRefs limit body) + length (blockAnnotations body) \<le> limit"
    and "extractFileReferences limit (Some body) = Some (lineRefs limit body @ extra)"
    and "\<forall>r \<in> set extra. path r \<notin> path ` set (lineRefs limit body)"
  shows "path ` set extra = set (blockAnnotations body) - path ` set (lineRefs limit body)"
proof -
  from extractFileReferences_body[of body limit] obtain lm bm where
    b: "exec_all fileLinePattern body = Some lm" "exec_all codeBlockPattern body = Some bm"
       "extractFileReferences limit (Some body) = Some (blockPass limit (linePass limit [] lm) bm)"
    by blast
  then have l: "lineRefs limit body = linePass limit [] lm"
    "blockAnnotations body = filter (\<lambda>a. a \<noteq> []) (map (\<lambda>m. group_text m 1) bm)"
    by (simp_all add: lineRefs_def blockAnnotations_def)
  from blockPass_paths[of "linePass limit [] lm" bm limit] assms(1)
  have "path ` set (blockPass limit (linePass limit [] lm) bm)
      = path ` set (lineRefs limit body) \<union> set (blockAnnotations body)"
    unfolding l by simp
  with assms(2) b(3) have "path ` set (lineRefs limit body) \<union> path ` set extra
      = path ` set (lineRefs limit body) \<union> set (blockAnnotations body)"
    by (simp add: image_Un)
  moreover have "path ` set extra \<inter> path ` set (lineRefs limit body) = {}"
    using assms(3) by blast
  moreover have "\<And>A E B :: string set. A \<union> E = A \<union> B \<Longrightarrow> E \<inter> A = {} \<Longrightarrow> E = B - A"
    by blast
  ultimately show ?thesis by blast
qed

text \<open>
  C6.  The claim: a path that the first loop matches keeps the line numbers of that
  match in the result, also when a code fence names it.  A match is not yet a
  reference: in \<open>b.js:9007199254740993\<close> followed by a fence that names \<open>b.js\<close> the
  expansion of the line number ends in a \<open>RangeError\<close>, the first loop pushes nothing,
  and the second loop lists \<open>b.js\<close> without line numbers.
\<close>

theorem C6_matched_path_without_lines:
  "extractFileReferences 4294967295
     (Some (''b.js:9007199254740993 '' @ fence @ ''js b.js\<newline>'' @ fence))
   = Some [\<lparr>path = ''b.js'', lineNumbers = []\<rparr>]"
proof -
  let ?body = "''b.js:9007199254740993 '' @ fence @ ''js b.js\<newline>'' @ fence"
  let ?m = "\<lparr>lead = [], matched = ''b.js:9007199254740993'',
      groups = [(2, ''9007199254740993''), (1, ''b.js'')],
      after = '' '' @ fence @ ''js b.js\<newline>'' @ fence\<rparr>"
  let ?f = "\<lparr>lead = ''b.js:9007199254740993 '', matched = fence @ ''js b.js\<newline>'' @ fence,
      groups = [(1, ''b.js'')], after = []\<rparr>"
  have l: "exec_all fileLinePattern ?body = Some [?m]" by code_simp
  have b: "exec_all codeBlockPattern ?body = Some [?f]" by code_simp
  have "lineRef 4294967295 ?m = Inl RangeError"
    by (rule lineRef_stall[of _ "''9007199254740993''" "''b.js''"])
      (simp_all add: parseInt10_2_53_1 round_double_2_53_1)
  then have "linePass 4294967295 [] [?m] = []" by simp
  moreover have "blockPass 4294967295 [] [?f] = [\<lparr>path = ''b.js'', lineNumbers = []\<rparr>]"
    by (simp add: group_text_def group_def push_def)
  moreover have "?body \<noteq> []" by (simp add: fence_def)
  ultimately show ?thesis using extractFileReferences_eval[OF _ l b, of 4294967295] by simp
qed

text \<open>
  C6, as the code has it.  The result is the references that the first loop has
  registered, unchanged and in place, followed by the references that the second loop
  adds: each of these has no line numbers and the file name of a code fence that the
  first loop has not registered, and no path is added twice.  So every reference in the
  result whose path the first loop has registered is a reference of the first loop, with
  its line numbers.  When the list has room for all of them, the added references carry
  exactly the file names of code fences that the first loop has not registered.
\<close>

theorem C6_code_block_keeps_line_numbers:
  "\<exists>extra. extractFileReferences limit (Some body) = Some (lineRefs limit body @ extra)
     \<and> distinct (map path extra)
     \<and> (\<forall>r \<in> set extra. lineNumbers r = [] \<and> path r \<in> set (blockAnnotations body)
           \<and> path r \<notin> path ` set (lineRefs limit body))
     \<and> (\<forall>r \<in> set (lineRefs limit body @ extra).
           path r \<in> path ` set (lineRefs limit body) \<longrightarrow> r \<in> set (lineRefs limit body))
     \<and> (length (lineRefs limit body) + length (blockAnnotations body) \<le> limit \<longrightarrow>
           path ` set extra = set (blockAnnotations body) - path ` set (lineRefs limit body))"
proof -
  from extractFileReferences_passes[of limit body] obtain extra where
    e: "extractFileReferences limit (Some body) = Some (lineRefs limit body @ extra)"
       "distinct (map path extra)"
       "\<forall>r \<in> set extra. lineNumbers r = [] \<and> path r \<noteq> []
           \<and> path r \<notin> path ` set (lineRefs limit body)
           \<and> path r \<in> set (blockAnnotations body)"
    by blast
  have "\<forall>r \<in> set (lineRefs limit body @ extra).
           path r \<in> path ` set (lineRefs limit body) \<longrightarrow> r \<in> set (lineRefs limit body)"
    using e(3) by auto
  moreover have "path ` set extra = set (blockAnnotations body) - path ` set (lineRefs limit body)"
    if "length (lineRefs limit body) + length (blockAnnotations body) \<le> limit"
    using extractFileReferences_complete[OF that e(1)] e(3) by blast
  ultimately show ?thesis using e by blast
qed

theorem C6_code_block_keeps_line_numbers_witness:
  "extractFileReferences 4294967295
     (Some (''x.py:3 '' @ fence @ ''js x.py\<newline>a\<newline>'' @ fence @ '' '' @ fence @ ''py lib/y.py\<newline>b\<newline>'' @ fence))
   = Some [\<lparr>path = ''x.py'', lineNumbers = [Num 3]\<rparr>, \<lparr>path = ''lib/y.py'', lineNumbers = []\<rparr>]"
proof -
  let ?body = "''x.py:3 '' @ fence @ ''js x.py\<newline>a\<newline>'' @ fence @ '' '' @ fence @ ''py lib/y.py\<newline>b\<newline>'' @ fence"
  let ?m = "\<lparr>lead = [], matched = ''x.py:3'', groups = [(2, ''3''), (1, ''x.py'')],
      after = '' '' @ fence @ ''js x.py\<newline>a\<newline>'' @ fence @ '' '' @ fence @ ''py lib/y.py\<newline>b\<newline>'' @ fence\<rparr>"
  have x: "exec_all fileLinePattern ?body = Some [?m]" by code_simp
  have "decimal ''3'' = 3" by (simp add: decimal_def)
  then have "lineRef 4294967295 ?m = Inr \<lparr>path = ''x.py'', lineNumbers = [Num 3]\<rparr>"
    using lineRef_single[of ?m "''3''" "''x.py''" 4294967295] by simp
  then have l: "lineRefs 4294967295 ?body = [\<lparr>path = ''x.py'', lineNumbers = [Num 3]\<rparr>]"
    unfolding lineRefs_def x by (simp add: push_def)
  have b: "blockAnnotations ?body = [''x.py'', ''lib/y.py'']" by code_simp
  from C6_code_block_keeps_line_numbers[of 4294967295 ?body] obtain extra where
    e: "extractFileReferences 4294967295 (Some ?body) = Some (lineRefs 4294967295 ?body @ extra)"
       "distinct (map path extra)"
       "\<forall>r \<in> set extra. lineNumbers r = [] \<and> path r \<in> set (blockAnnotations ?body)
           \<and> path r \<notin> path ` set (lineRefs 4294967295 ?body)"
       "length (lineRefs 4294967295 ?body) + length (blockAnnotations ?body) \<le> 4294967295 \<longrightarrow>
           path ` set extra = set (blockAnnotations ?body) - path ` set (lineRefs 4294967295 ?body)"
    by blast
  have "set (map path extra) = {''lib/y.py''}" using e(4) unfolding l b by auto
  with e(2) have "map path extra = [''lib/y.py'']" by (rule distinct_singleton)
  then obtain r where r: "extra = [r]" "path r = ''lib/y.py''" by auto
  with e(3) have "lineNumbers r = []" by simp
  with r(2) have "r = \<lparr>path = ''lib/y.py'', lineNumbers = []\<rparr>" by simp
  with e(1) r(1) l show ?thesis by simp
qed

text \<open>
  C8.  The claim: every reference has a non-empty path and only positive line numbers;
  \<open>file.js:0\<close> does not produce the line number 0.  The source has no check on the
  numbers it parses, and \<open>file.js:0\<close> produces \<open>[0]\<close>.
\<close>

theorem C8_line_number_zero:
  "extractFileReferences 4294967295 (Some ''file.js:0'')
     = Some [\<lparr>path = ''file.js'', lineNumbers = [Num 0]\<rparr>]"
proof -
  let ?m = "\<lparr>lead = [], matched = ''file.js:0'', groups = [(2, ''0''), (1, ''file.js'')],
      after = []\<rparr>"
  have l: "exec_all fileLinePattern ''file.js:0'' = Some [?m]" by code_simp
  have b: "exec_all codeBlockPattern ''file.js:0'' = Some []" by code_simp
  have "decimal ''0'' = 0" by (simp add: decimal_def)
  then have "lineRef 4294967295 ?m = Inr \<lparr>path = ''file.js'', lineNumbers = [Num 0]\<rparr>"
    using lineRef_single[of ?m "''0''" "''file.js''" 4294967295] by simp
  then have "linePass 4294967295 [] [?m] = [\<lparr>path = ''file.js'', lineNumbers = [Num 0]\<rparr>]"
    by (simp add: push_def)
  then show ?thesis using extractFileReferences_eval[OF _ l b, of 4294967295] by simp
qed

lemma lineRef_numbers:
  assumes "lineRef limit m = Inr r"
  shows "successive (lineNumbers r) \<and> Infinity \<notin> set (lineNumbers r)"
proof -
  from assms obtain s e where "for_lines limit s e [] = Inr (lineNumbers r)"
    by (auto simp: lineRef_def Let_def split: sum.splits)
  from for_lines_result[OF this] show ?thesis by simp
qed

text \<open>
  C8, as the code has it: on every input (\<open>null\<close> included) the call returns, every
  reference has a non-empty path, and its line numbers are non-negative integers (none
  is \<open>Infinity\<close>), each the one before it after \<open>i++\<close>; zero is not excluded.
\<close>

theorem C8_paths_nonempty_lines_integers:
  "\<exists>refs. extractFileReferences limit issueBody = Some refs
     \<and> (\<forall>r \<in> set refs. path r \<noteq> [] \<and> Infinity \<notin> set (lineNumbers r)
           \<and> successive (lineNumbers r))"
proof (cases issueBody)
  case None
  then show ?thesis by (simp add: extractFileReferences_def)
next
  case (Some body)
  from extractFileReferences_passes[of limit body] obtain extra where
    e: "extractFileReferences limit (Some body) = Some (lineRefs limit body @ extra)"
       "\<forall>r \<in> set extra. lineNumbers r = [] \<and> path r \<noteq> []
           \<and> path r \<notin> path ` set (lineRefs limit body)
           \<and> path r \<in> set (blockAnnotations body)"
    by blast
  have "path r \<noteq> [] \<and> Infinity \<notin> set (lineNumbers r) \<and> successive (lineNumbers r)"
    if "r \<in> set (lineRefs limit body @ extra)" for r
  proof (cases "r \<in> set extra")
    case True
    with e(2) show ?thesis by simp
  next
    case False
    with that have r: "r \<in> set (lineRefs limit body)" by simp
    then obtain found where f: "exec_all fileLinePattern body = Some found"
      "r \<in> set (linePass limit [] found)"
      by (cases "exec_all fileLinePattern body") (auto simp: lineRefs_def)
    from linePass_appends[of limit "[]" found] f(2) obtain m where
      m: "m \<in> set found" "lineRef limit m = Inr r" by auto
    from lineRef_path_nonempty[OF f(1) m] lineRef_numbers[OF m(2)] show ?thesis by simp
  qed
  with e(1) Some show ?thesis by blast
qed

theorem C8_paths_nonempty_lines_integers_witness:
  "extractFileReferences 4294967295 (Some ''a.js:7-9'')
     = Some [\<lparr>path = ''a.js'', lineNumbers = [Num 7, Num 8, Num 9]\<rparr>]
   \<and> ''a.js'' \<noteq> [] \<and> Infinity \<notin> set [Num 7, Num 8, Num 9] \<and> successive [Num 7, Num 8, Num 9]"
proof -
  let ?m = "\<lparr>lead = [], matched = ''a.js:7-9'', groups = [(3, ''9''), (2, ''7''), (1, ''a.js'')],
      after = []\<rparr>"
  have l: "exec_all fileLinePattern ''a.js:7-9'' = Some [?m]" by code_simp
  have b: "exec_all codeBlockPattern ''a.js:7-9'' = Some []" by code_simp
  have d: "decimal ''7'' = 7" "decimal ''9'' = 9" by (simp_all add: decimal_def)
  have "plain 4294967295 ?m"
    by (simp add: plain_def start_of_def end_of_def group_text_def group_def d)
  from lineRef_plain[OF this]
  have "lineRef 4294967295 ?m = Inr \<lparr>path = ''a.js'', lineNumbers = [Num 7, Num 8, Num 9]\<rparr>"
    by (simp add: reference_def start_of_def end_of_def group_text_def group_def d upt_rec)
  then have "linePass 4294967295 [] [?m] = [\<lparr>path = ''a.js'', lineNumbers = [Num 7, Num 8, Num 9]\<rparr>]"
    by (simp add: push_def)
  then have c: "extractFileReferences 4294967295 (Some ''a.js:7-9'')
      = Some [\<lparr>path = ''a.js'', lineNumbers = [Num 7, Num 8, Num 9]\<rparr>]"
    using extractFileReferences_eval[OF _ l b, of 4294967295] by simp
  from C8_paths_nonempty_lines_integers[of 4294967295 "Some ''a.js:7-9''"] obtain refs where
    r: "extractFileReferences 4294967295 (Some ''a.js:7-9'') = Some refs"
       "\<forall>r \<in> set refs. path r \<noteq> [] \<and> Infinity \<notin> set (lineNumbers r)
           \<and> successive (lineNumbers r)"
    by blast
  from r(1) c have "refs = [\<lparr>path = ''a.js'', lineNumbers = [Num 7, Num 8, Num 9]\<rparr>]" by simp
  with r(2) have "''a.js'' \<noteq> [] \<and> Infinity \<notin> set [Num 7, Num 8, Num 9]
      \<and> successive [Num 7, Num 8, Num 9]"
    by (metis fileReference.select_convs(1,2) list.set_intros(1))
  with c show ?thesis by blast
qed

section \<open>The claims about analyzeCode\<close>

text \<open>\<open>str_includes\<close> is the substring relation.\<close>

lemma str_includes_iff: "str_includes s t \<longleftrightarrow> (\<exists>u v. s = u @ t @ v)"
proof (induction s)
  case Nil
  then show ?case by auto
next
  case (Cons c cs)
  show ?case
  proof
    assume "str_includes (c # cs) t"
    then consider "prefix t (c # cs)" | "str_includes cs t" by auto
    then show "\<exists>u v. c # cs = u @ t @ v"
    proof cases
      case 1
      then obtain v where "c # cs = t @ v" by (auto simp: prefix_def)
      then have "c # cs = [] @ t @ v" by simp
      then show ?thesis by blast
    next
      case 2
      with Cons.IH obtain u v where "cs = u @ t @ v" by blast
      then have "c # cs = (c # u) @ t @ v" by simp
      then show ?thesis by blast
    qed
  next
    assume "\<exists>u v. c # cs = u @ t @ v"
    then obtain u v where uv: "c # cs = u @ t @ v" by blast
    show "str_includes (c # cs) t"
    proof (cases u)
      case Nil
      with uv have "prefix t (c # cs)" by (simp add: prefix_def)
      then show ?thesis by simp
    next
      case (Cons x xs)
      with uv have "cs = xs @ t @ v" by simp
      with Cons.IH show ?thesis by auto
    qed
  qed
qed

text \<open>
  C9.  For a non-empty string, the result of \<open>analyzeCode\<close> is the list of the records
  of the four heuristics that fire, each decided on the text alone; a text with an
  unsafe-evaluation call and a hardcoded credential gets two records of type
  \<open>security\<close>, one for each heuristic.
\<close>

theorem C9_heuristics_independent:
  assumes "code \<noteq> []"
  shows "analyzeCode (Some code) =
      (if str_includes code ''console.log'' \<or> str_includes code ''console.debug''
            \<or> str_includes code ''console.error''
       then [\<lparr>issue_type = ''debugging'', description = ''Debug statements found in code'',
               severity = ''low''\<rparr>] else [])
    @ (if str_includes code ''TODO'' \<or> str_includes code ''FIXME''
            \<or> str_includes code ''HACK'' \<or> str_includes code ''XXX''
       then [\<lparr>issue_type = ''incomplete'',
               description = ''TODO, FIXME, HACK or XXX comments found'',
               severity = ''medium''\<rparr>] else [])
    @ (if str_includes code ''eval('' \<or> str_includes code ''new Function(''
       then [\<lparr>issue_type = ''security'', description = ''Potentially unsafe code execution'',
               severity = ''high''\<rparr>] else [])
    @ (if list_ex (\<lambda>pattern. test pattern code) credentialPatterns
       then [\<lparr>issue_type = ''security'',
               description = ''Potential hardcoded credentials found'',
               severity = ''critical''\<rparr>] else [])
    \<and> ((str_includes code ''eval('' \<or> str_includes code ''new Function('')
         \<and> list_ex (\<lambda>pattern. test pattern code) credentialPatterns
       \<longrightarrow> filter (\<lambda>i. issue_type i = ''security'') (analyzeCode (Some code)) =
           [\<lparr>issue_type = ''security'', description = ''Potentially unsafe code execution'',
              severity = ''high''\<rparr>,
            \<lparr>issue_type = ''security'',
              description = ''Potential hardcoded credentials found'',
              severity = ''critical''\<rparr>])"
  using assms by (simp add: analyzeCode_def Let_def)

theorem C9_heuristics_independent_witness:
  "filter (\<lambda>i. issue_type i = ''security'')
     (analyzeCode (Some (''eval(x); password = '' @ [CHR 0x22] @ ''abc'' @ [CHR 0x22]))) =
     [\<lparr>issue_type = ''security'', description = ''Potentially unsafe code execution'',
        severity = ''high''\<rparr>,
      \<lparr>issue_type = ''security'', description = ''Potential hardcoded credentials found'',
        severity = ''critical''\<rparr>]"
proof -
  let ?code = "''eval(x); password = '' @ [CHR 0x22] @ ''abc'' @ [CHR 0x22]"
  have a: "?code \<noteq> []" by simp
  have b: "str_includes ?code ''eval(''" by code_simp
  have c: "list_ex (\<lambda>pattern. test pattern ?code) credentialPatterns" by code_simp
  from C9_heuristics_independent[OF a] b c show ?thesis by blast
qed

section \<open>The claims about parseAIResponse\<close>

lemma foldl_push: "foldl (\<lambda>refs m. refs @ [f m]) acc found = acc @ map f found"
  by (induction found arbitrary: acc) simp_all

lemma split_str_nonempty: "split_str sep piece s \<noteq> []"
proof (induction sep piece s rule: split_str.induct)
  case (1 sep piece s)
  then show ?case by (subst split_str.simps) (auto split: list.splits)
qed

lemma analysisOf_returns: "\<exists>a. analysisOf aiResponse = Inr a"
  using split_str_nonempty[of "[newline, newline]" "[]" aiResponse]
  by (auto simp: analysisOf_def Let_def split: option.splits list.splits)

lemma min_len_LitCI: "min_len (LitCI s) = length s"
  by (induction s) (simp_all add: LitCI_def)

lemma min_len_Lit: "min_len (Lit s) = length s"
  by (induction s) (simp_all add: Lit_def)

text \<open>On a string, \<open>parseAIResponse\<close> returns a solution record.\<close>

lemma parseAIResponse_returns:
  "\<exists>blocks a. exec_all codeBlockPattern aiResponse = Some blocks
     \<and> analysisOf aiResponse = Inr a
     \<and> parseAIResponse (Some aiResponse) fileContents
         = Some (Inr \<lparr>analysis = a, solution = solutionOf aiResponse,
                       codeSnippets = map (snippetOf fileContents) blocks,
                       bestPractices = bestPracticesOf aiResponse\<rparr>)"
proof -
  obtain blocks where "exec_all codeBlockPattern aiResponse = Some blocks"
    using exec_all_total[of codeBlockPattern aiResponse] min_len_codeBlockPattern by auto
  moreover obtain a where "analysisOf aiResponse = Inr a" using analysisOf_returns by blast
  ultimately show ?thesis by (simp add: parseAIResponse_def foldl_push)
qed

text \<open>
  C2.  The claim: for \<open>null\<close> and for the empty string neither function throws.
  \<open>parseAIResponse\<close> has no guard on \<open>aiResponse\<close>; on \<open>null\<close> its first statement,
  \<open>aiResponse.match(...)\<close>, throws a TypeError.
\<close>

theorem C2_parse_null_throws:
  "parseAIResponse None None = Some (Inl TypeError)"
  by (simp add: parseAIResponse_def)

text \<open>
  C2, as the code has it: \<open>extractFileReferences\<close> returns the empty list for \<open>null\<close>
  and for the empty string, and \<open>parseAIResponse\<close> returns the default record for the
  empty string, whatever the file contents.
\<close>

theorem C2_empty_input_defaults:
  "extractFileReferences limit None = Some []
   \<and> extractFileReferences limit (Some []) = Some []
   \<and> parseAIResponse (Some []) fileContents
       = Some (Inr \<lparr>analysis = [], solution = [], codeSnippets = [], bestPractices = []\<rparr>)"
proof -
  have s: "min_len (sectionPattern label following) = min_len label + 1" for label following
    by (simp add: sectionPattern_def Plus_def)
  have "0 < min_len analysisPattern" "0 < min_len solutionPattern" "0 < min_len bestPracticesPattern"
    by (simp_all add: analysisPattern_def solutionPattern_def bestPracticesPattern_def s)
  then have e: "exec analysisPattern [] = None" "exec solutionPattern [] = None"
    "exec bestPracticesPattern [] = None"
    using ms_empty_input by (simp_all add: exec.simps)
  have b: "exec_all codeBlockPattern [] = Some []"
    using exec_all_empty[of codeBlockPattern] min_len_codeBlockPattern by simp
  have "split_str [newline, newline] [] [] = [[]]" by (simp add: split_str.simps)
  then have a: "analysisOf [] = Inr []" using e(1) by (simp add: analysisOf_def trim_def)
  show ?thesis
    using a b e by (simp add: extractFileReferences_def parseAIResponse_def solutionOf_def bestPracticesOf_def)
qed

lemma find_Some_split:
  "find P xs = Some x \<Longrightarrow> \<exists>earlier later. xs = earlier @ x # later \<and> P x \<and> (\<forall>y \<in> set earlier. \<not> P y)"
proof (induction xs)
  case Nil
  then show ?case by simp
next
  case (Cons a xs)
  show ?case
  proof (cases "P a")
    case True
    with Cons.prems have "a = x" by simp
    with True have "a # xs = [] @ x # xs \<and> P x \<and> (\<forall>y \<in> set []. \<not> P y)" by simp
    then show ?thesis by blast
  next
    case False
    with Cons.prems have "find P xs = Some x" by simp
    from Cons.IH[OF this] obtain earlier later where
      "xs = earlier @ x # later" "P x" "\<forall>y \<in> set earlier. \<not> P y" by blast
    with False have "a # xs = (a # earlier) @ x # later \<and> P x \<and> (\<forall>y \<in> set (a # earlier). \<not> P y)"
      by simp
    then show ?thesis by blast
  qed
qed

lemma str_includes_sublist: "str_includes s t \<longleftrightarrow> sublist t s"
  by (simp add: str_includes_iff sublist_def)

lemma snippetOf_resolved: "resolved knownFiles m (snippetOf (Some knownFiles) m)"
proof (cases "group_text m 1 = []")
  case True
  then show ?thesis by (simp add: resolved_def snippetOf_def Let_def)
next
  case False
  let ?P = "\<lambda>f. str_includes (path_f f) (group_text m 1) \<or> str_includes (group_text m 1) (path_f f)"
  have P: "?P f \<longleftrightarrow> contains_either (group_text m 1) f" for f
    by (auto simp: contains_either_def str_includes_sublist)
  show ?thesis
  proof (cases "find ?P knownFiles")
    case None
    then have "\<forall>g \<in> set knownFiles. \<not> ?P g"
      by (simp add: find_None_iff)
    then have "\<forall>g \<in> set knownFiles. \<not> contains_either (group_text m 1) g"
      using P by blast
    with None False show ?thesis by (simp add: resolved_def snippetOf_def Let_def)
  next
    case (Some f)
    from find_Some_split[OF this] obtain earlier later where
      "knownFiles = earlier @ f # later" "?P f" "\<forall>y \<in> set earlier. \<not> ?P y" by blast
    then have "knownFiles = earlier @ f # later \<and> contains_either (group_text m 1) f
        \<and> (\<forall>g \<in> set earlier. \<not> contains_either (group_text m 1) g)"
      using P by blast
    moreover have "filePath (snippetOf (Some knownFiles) m) = path_f f"
      "originalCode (snippetOf (Some knownFiles) m) = content f"
      using Some False by (simp_all add: snippetOf_def Let_def)
    ultimately show ?thesis using False unfolding resolved_def by (simp only: if_False) blast
  qed
qed

text \<open>
  C7.  On every text, the snippets correspond one to one, in order, to the matches of
  the code-fence pattern.  For a match with a file-path annotation, the first known file
  (in list order) whose path contains the annotation or is contained in it gives the
  snippet its own path and its content; if there is none, the snippet keeps the
  annotation and has no original code.  A match without annotation gives an empty
  \<open>filePath\<close> and no original code.
\<close>

theorem C7_snippets_resolved_against_known_files:
  "\<exists>sol blocks. parseAIResponse (Some rawText) (Some knownFiles) = Some (Inr sol)
     \<and> exec_all codeBlockPattern rawText = Some blocks
     \<and> list_all2 (resolved knownFiles) blocks (codeSnippets sol)"
proof -
  from parseAIResponse_returns[of rawText "Some knownFiles"] obtain blocks a where
    b: "exec_all codeBlockPattern rawText = Some blocks"
       "parseAIResponse (Some rawText) (Some knownFiles)
         = Some (Inr \<lparr>analysis = a, solution = solutionOf rawText,
                       codeSnippets = map (snippetOf (Some knownFiles)) blocks,
                       bestPractices = bestPracticesOf rawText\<rparr>)"
    by blast
  have "list_all2 (resolved knownFiles) blocks (map (snippetOf (Some knownFiles)) blocks)"
    by (simp add: list_all2_map2 list_all2_same snippetOf_resolved)
  with b show ?thesis by simp
qed

theorem C7_snippets_resolved_against_known_files_witness:
  "\<exists>sol s. parseAIResponse
       (Some (''Fix: '' @ fence @ ''js src/app.js\<newline>let x = 1;\<newline>'' @ fence))
       (Some [\<lparr>path_f = ''lib/b.js'', content = ''B''\<rparr>, \<lparr>path_f = ''src/app.js'', content = ''old''\<rparr>])
     = Some (Inr sol)
   \<and> codeSnippets sol = [s] \<and> filePath s = ''src/app.js'' \<and> originalCode s = ''old''"
proof -
  let ?raw = "''Fix: '' @ fence @ ''js src/app.js\<newline>let x = 1;\<newline>'' @ fence"
  let ?f1 = "\<lparr>path_f = ''lib/b.js'', content = ''B''\<rparr>"
  let ?f2 = "\<lparr>path_f = ''src/app.js'', content = ''old''\<rparr>"
  let ?m = "\<lparr>lead = ''Fix: '', matched = fence @ ''js src/app.js\<newline>let x = 1;\<newline>'' @ fence,
                groups = [(1, ''src/app.js'')], after = []\<rparr>"
  have c: "exec_all codeBlockPattern ?raw = Some [?m]"
    by code_simp
  have g: "group_text ?m 1 = ''src/app.js''" by (simp add: group_text_def group_def)
  have "\<not> str_includes ''lib/b.js'' ''src/app.js''" "\<not> str_includes ''src/app.js'' ''lib/b.js''"
    "str_includes ''src/app.js'' ''src/app.js''"
    by simp_all
  then have k: "\<not> contains_either ''src/app.js'' ?f1" "contains_either ''src/app.js'' ?f2"
    by (simp_all add: contains_either_def str_includes_sublist)
  from C7_snippets_resolved_against_known_files[of ?raw "[?f1, ?f2]"] obtain sol blocks where
    s: "parseAIResponse (Some ?raw) (Some [?f1, ?f2]) = Some (Inr sol)"
       "exec_all codeBlockPattern ?raw = Some blocks"
       "list_all2 (resolved [?f1, ?f2]) blocks (codeSnippets sol)"
    by blast
  from s(2) c have "blocks = [?m]" by simp
  with s(3) obtain sn where sn: "codeSnippets sol = [sn]" "resolved [?f1, ?f2] ?m sn"
    by (auto simp: list_all2_Cons1)
  from sn(2) g k(2) obtain earlier f later where
    f: "[?f1, ?f2] = earlier @ f # later" "contains_either ''src/app.js'' f"
       "filePath sn = path_f f" "originalCode sn = content f"
    unfolding resolved_def by auto
  from f(1,2) k(1) have "f = ?f2"
    by (auto simp: Cons_eq_append_conv)
  with f(3,4) have "filePath sn = ''src/app.js''" "originalCode sn = ''old''" by simp_all
  with s(1) sn(1) show ?thesis by blast
qed

lemma occurs_ci_suffix: "suffix t' t \<Longrightarrow> occurs_ci ws t' \<Longrightarrow> occurs_ci ws t"
proof -
  assume a: "suffix t' t" "occurs_ci ws t'"
  then obtain u where "t = u @ t'" by (auto simp: suffix_def)
  then have "suffix (map lower_ascii t') (map lower_ascii t)" by (simp add: suffix_def)
  then have "sublist (map lower_ascii t') (map lower_ascii t)" by (rule suffix_imp_sublist)
  with a(2) show ?thesis unfolding occurs_ci_def using sublist_order.order.trans by blast
qed

lemma ms_LitCI:
  "st' \<in> set (ms (LitCI s) st) \<Longrightarrow>
   \<exists>l. fst st = l @ fst st' \<and> map lower_ascii l = map lower_ascii s"
proof (induction s arbitrary: st)
  case Nil
  then show ?case by (simp add: LitCI_def)
next
  case (Cons c s)
  from Cons.prems obtain y where y: "y \<in> set (ms (Chr (\<lambda>x. lower_ascii x = lower_ascii c)) st)"
    "st' \<in> set (ms (LitCI s) y)"
    by (auto simp: LitCI_def)
  from y(1) obtain x where x: "fst st = x # fst y" "lower_ascii x = lower_ascii c"
    by (cases "fst st") (auto split: if_splits)
  from Cons.IH[OF y(2)] obtain l where "fst y = l @ fst st'" "map lower_ascii l = map lower_ascii s"
    by blast
  with x have "fst st = (x # l) @ fst st' \<and> map lower_ascii (x # l) = map lower_ascii (c # s)"
    by simp
  then show ?case by blast
qed

lemma needs_LitCI:
  assumes "map lower_ascii s = a @ w @ b" "w \<in> ws"
  shows "needs ws (LitCI s)"
  unfolding needs_def
proof (intro allI impI)
  fix st st' assume "st' \<in> set (ms (LitCI s) st)"
  from ms_LitCI[OF this] obtain l where l: "fst st = l @ fst st'" "map lower_ascii l = map lower_ascii s"
    by blast
  then have "prefix (map lower_ascii s) (map lower_ascii (fst st))" by (simp add: prefix_def)
  then have "sublist (map lower_ascii s) (map lower_ascii (fst st))" by (rule prefix_imp_sublist)
  moreover have "sublist w (map lower_ascii s)" unfolding assms(1) sublist_def by blast
  ultimately have "sublist w (map lower_ascii (fst st))" using sublist_order.order.trans by blast
  with assms(2) show "occurs_ci ws (fst st)" unfolding occurs_ci_def by blast
qed

lemma needs_Ch:
  assumes "[lower_ascii c] \<in> ws"
  shows "needs ws (Ch c)"
  unfolding needs_def
proof (intro allI impI)
  fix st st' assume "st' \<in> set (ms (Ch c) st)"
  then obtain t where "fst st = c # t" by (cases "fst st") (auto simp: Ch_def split: if_splits)
  then have "prefix [lower_ascii c] (map lower_ascii (fst st))" by simp
  then have "sublist [lower_ascii c] (map lower_ascii (fst st))" by (rule prefix_imp_sublist)
  with assms show "occurs_ci ws (fst st)" unfolding occurs_ci_def by blast
qed

lemma needs_Alt: "needs ws r1 \<Longrightarrow> needs ws r2 \<Longrightarrow> needs ws (Alt r1 r2)"
  unfolding needs_def
proof (intro allI impI)
  fix st st' assume n: "\<forall>st st'. st' \<in> set (ms r1 st) \<longrightarrow> occurs_ci ws (fst st)"
    "\<forall>st st'. st' \<in> set (ms r2 st) \<longrightarrow> occurs_ci ws (fst st)"
    and "st' \<in> set (ms (Alt r1 r2) st)"
  then have "st' \<in> set (ms r1 st) \<or> st' \<in> set (ms r2 st)" by simp
  with n show "occurs_ci ws (fst st)" by blast
qed

lemma needs_Seq1: "needs ws r1 \<Longrightarrow> needs ws (Seq r1 r2)"
  unfolding needs_def
proof (intro allI impI)
  fix st st' assume n: "\<forall>st st'. st' \<in> set (ms r1 st) \<longrightarrow> occurs_ci ws (fst st)"
    and "st' \<in> set (ms (Seq r1 r2) st)"
  then obtain y where "y \<in> set (ms r1 st)" by auto
  with n show "occurs_ci ws (fst st)" by blast
qed

lemma needs_Seq2: "needs ws r2 \<Longrightarrow> needs ws (Seq r1 r2)"
  unfolding needs_def
proof (intro allI impI)
  fix st st' assume n: "\<forall>st st'. st' \<in> set (ms r2 st) \<longrightarrow> occurs_ci ws (fst st)"
    and "st' \<in> set (ms (Seq r1 r2) st)"
  then obtain y where y: "y \<in> set (ms r1 st)" "st' \<in> set (ms r2 y)" by auto
  from n y(2) have "occurs_ci ws (fst y)" by blast
  with ms_suffix[OF y(1)] show "occurs_ci ws (fst st)" by (rule occurs_ci_suffix)
qed

lemma needs_Look: "needs ws r \<Longrightarrow> needs ws (Look r)"
  unfolding needs_def
proof (intro allI impI)
  fix st st' assume n: "\<forall>st st'. st' \<in> set (ms r st) \<longrightarrow> occurs_ci ws (fst st)"
    and "st' \<in> set (ms (Look r) st)"
  then obtain y ys where "ms r st = y # ys" by (cases "ms r st") auto
  then have "y \<in> set (ms r st)" by simp
  with n show "occurs_ci ws (fst st)" by blast
qed

lemma needs_exec:
  assumes "needs ws r" "\<not> occurs_ci ws s"
  shows "exec r s = None"
proof (rule ccontr)
  assume "exec r s \<noteq> None"
  then obtain m where "exec r s = Some m" by auto
  from exec_first[OF this] obtain t st sts where t: "suffix t s" "ms r (t, []) = st # sts" by blast
  then have "st \<in> set (ms r (t, []))" by simp
  with assms(1) have "occurs_ci ws t" unfolding needs_def by fastforce
  with t(1) assms(2) show False using occurs_ci_suffix by blast
qed

text \<open>A section pattern needs a newline, and one of the words its lookahead needs.\<close>

lemma needs_section_following:
  "needs ws following \<Longrightarrow> needs ws (sectionPattern label following)"
  unfolding sectionPattern_def
  by (intro needs_Seq2 needs_Look)

lemma needs_section_newline: "needs {[newline]} (sectionPattern label following)"
proof -
  have "lower_ascii newline = newline" by (simp add: lower_ascii_def newline_def)
  then have "needs {[newline]} (Ch newline)" by (intro needs_Ch) simp
  then show ?thesis
    unfolding sectionPattern_def
    by (intro needs_Seq2 needs_Look needs_Seq1)
qed

lemma needs_numbered: "needs ws (LitCI label) \<Longrightarrow> needs ws (numbered label)"
  unfolding numbered_def by (intro needs_Seq2)

lemma needs_analysisPattern: "needs {''solution''} analysisPattern"
proof -
  have l: "map lower_ascii ''Solution'' = [] @ ''solution'' @ []"
    "map lower_ascii ''Step-by-step solution'' = ''step-by-step '' @ ''solution'' @ []"
    "map lower_ascii ''Suggested solution'' = ''suggested '' @ ''solution'' @ []"
    by code_simp+
  have "needs {''solution''} (LitCI ''Solution'')"
    "needs {''solution''} (LitCI ''Step-by-step solution'')"
    "needs {''solution''} (LitCI ''Suggested solution'')"
    by (rule needs_LitCI[OF l(1)], blast, rule needs_LitCI[OF l(2)], blast,
        rule needs_LitCI[OF l(3)], blast)
  then show ?thesis
    unfolding analysisPattern_def
    by (intro needs_section_following needs_Alt needs_numbered)
qed

lemma needs_solutionPattern: "needs {''best practices'', ''prevention''} solutionPattern"
proof -
  have l: "map lower_ascii ''Best Practices'' = [] @ ''best practices'' @ []"
    "map lower_ascii ''Prevention'' = [] @ ''prevention'' @ []"
    by code_simp+
  have "needs {''best practices'', ''prevention''} (LitCI ''Best Practices'')"
    "needs {''best practices'', ''prevention''} (LitCI ''Prevention'')"
    by (rule needs_LitCI[OF l(1)], blast, rule needs_LitCI[OF l(2)], blast)
  then show ?thesis
    unfolding solutionPattern_def
    by (intro needs_section_following needs_Alt needs_numbered)
qed

lemma split_str_first:
  "\<exists>rest. split_str [newline, newline] piece s = (piece @ first_paragraph s) # rest"
proof (induction "[newline, newline]" piece s rule: split_str.induct)
  case (1 piece s)
  show ?case
  proof (cases s)
    case Nil
    then show ?thesis by (subst split_str.simps) simp
  next
    case (Cons c cs)
    show ?thesis
    proof (cases "prefix [newline, newline] s")
      case True
      then show ?thesis using Cons by (subst split_str.simps) simp
    next
      case False
      with "1.hyps"(2)[OF Cons] obtain rest where
        "split_str [newline, newline] (piece @ [c]) cs = ((piece @ [c]) @ first_paragraph cs) # rest"
        by auto
      then show ?thesis using Cons False by (subst split_str.simps) simp
    qed
  qed
qed

lemma first_paragraph_one_line: "newline \<notin> set s \<Longrightarrow> first_paragraph s = s"
  by (induction s) auto

lemma analysisOf_fallback:
  "exec analysisPattern aiResponse = None \<Longrightarrow>
   analysisOf aiResponse = Inr (trim (first_paragraph aiResponse))"
  using split_str_first[of "[]" aiResponse] by (auto simp: analysisOf_def)

lemma lower_ascii_newline: "lower_ascii c = newline \<Longrightarrow> c = newline"
proof (cases "65 \<le> (of_char c :: nat) \<and> (of_char c :: nat) \<le> 90")
  case True
  assume "lower_ascii c = newline"
  with True have "char_of (of_char c + 32 :: nat) = newline" by (simp add: lower_ascii_def)
  then have "(of_char (char_of (of_char c + 32 :: nat)) :: nat) = of_char newline" by simp
  then have "(of_char c + 32) mod 256 = (10 :: nat)" by (simp add: newline_def)
  with True show ?thesis by (simp add: mod_if split: if_splits)
next
  case False
  assume "lower_ascii c = newline"
  with False show ?thesis by (auto simp: lower_ascii_def Let_def)
qed

lemma occurs_ci_newline: "occurs_ci {[newline]} s \<Longrightarrow> newline \<in> set s"
proof -
  assume "occurs_ci {[newline]} s"
  then obtain u v where "map lower_ascii s = u @ [newline] @ v"
    by (auto simp: occurs_ci_def sublist_def)
  then have "newline \<in> set (map lower_ascii s)" by simp
  then obtain c where c: "c \<in> set s" "lower_ascii c = newline" by auto
  then have "c = newline" using lower_ascii_newline by blast
  with c(1) show ?thesis by simp
qed

lemma section_needs_newline:
  "newline \<notin> set s \<Longrightarrow> exec (sectionPattern label following) s = None"
  using needs_exec[OF needs_section_newline] occurs_ci_newline by blast

lemma parse_one_line:
  assumes "newline \<notin> set rawText" "exec_all codeBlockPattern rawText = Some blocks"
  shows "parseAIResponse (Some rawText) fileContents
     = Some (Inr \<lparr>analysis = trim rawText, solution = [],
                  codeSnippets = map (snippetOf fileContents) blocks, bestPractices = []\<rparr>)"
proof -
  have e: "exec analysisPattern rawText = None" "exec solutionPattern rawText = None"
    "exec bestPracticesPattern rawText = None"
    unfolding analysisPattern_def solutionPattern_def bestPracticesPattern_def
    using assms(1) by (simp_all add: section_needs_newline)
  from analysisOf_fallback[OF e(1)] first_paragraph_one_line[OF assms(1)]
  have "analysisOf rawText = Inr (trim rawText)" by simp
  with e(2,3) assms(2) show ?thesis
    by (simp add: parseAIResponse_def solutionOf_def bestPracticesOf_def foldl_push)
qed

text \<open>
  C4.  The claim: a labelled section is captured up to the next label or up to the end
  of the input, so that an analysis label with no later label still gives the labelled
  text as the analysis, and likewise for the solution.  The analysis and solution
  patterns end only at a newline followed by the next label; without it the analysis is
  the first paragraph, label included, and the solution is empty.
\<close>

theorem C4_no_later_label:
  "parseAIResponse (Some ''Analysis: the bug is X'') None
     = Some (Inr \<lparr>analysis = ''Analysis: the bug is X'', solution = [],
                  codeSnippets = [], bestPractices = []\<rparr>)
   \<and> parseAIResponse (Some ''Solution: do Y'') None
     = Some (Inr \<lparr>analysis = ''Solution: do Y'', solution = [],
                  codeSnippets = [], bestPractices = []\<rparr>)"
proof -
  have n: "newline \<notin> set ''Analysis: the bug is X''" "newline \<notin> set ''Solution: do Y''"
    by (simp_all add: newline_def)
  have b: "exec_all codeBlockPattern ''Analysis: the bug is X'' = Some []"
    "exec_all codeBlockPattern ''Solution: do Y'' = Some []"
    by code_simp+
  have t: "trim ''Analysis: the bug is X'' = ''Analysis: the bug is X''"
    "trim ''Solution: do Y'' = ''Solution: do Y''"
    by code_simp+
  show ?thesis
    using parse_one_line[OF n(1) b(1), of None] parse_one_line[OF n(2) b(2), of None] t by simp
qed

lemma dropWhile_rev_keeps_head:
  assumes "s \<noteq> []" "\<not> P (hd s)"
  shows "\<exists>t. rev (dropWhile P (rev s)) = hd s # t"
proof -
  obtain x xs where x: "s = x # xs" using assms(1) by (cases s) auto
  have "dropWhile P (rev xs @ [x]) = dropWhile P (rev xs) @ [x]"
    using assms(2) x by (simp add: dropWhile_append3 dropWhile_append)
  then have "rev (dropWhile P (rev s)) = x # rev (dropWhile P (rev xs))" using x by simp
  then show ?thesis using x by simp
qed

lemma trimmed_trim: "trimmed (trim s)"
proof (cases "dropWhile is_space s = []")
  case True
  show ?thesis unfolding trim_def True by (simp add: trimmed_def)
next
  case False
  let ?t = "dropWhile is_space s"
  have h: "\<not> is_space (hd ?t)" using False hd_dropWhile by blast
  from dropWhile_rev_keeps_head[of ?t is_space, OF False h] obtain u where u: "trim s = hd ?t # u"
    by (auto simp: trim_def)
  have ne: "dropWhile is_space (rev ?t) \<noteq> []" using u by (auto simp: trim_def)
  have "last (trim s) = hd (dropWhile is_space (rev ?t))"
    using ne by (simp add: trim_def last_rev)
  moreover have "\<not> is_space (hd (dropWhile is_space (rev ?t)))" using ne hd_dropWhile by blast
  ultimately show ?thesis using u h by (simp add: trimmed_def)
qed

lemma trim_trimmed: "trimmed s \<Longrightarrow> trim s = s"
proof (cases s)
  case Nil
  then show ?thesis by (simp add: trim_def)
next
  case (Cons x xs)
  assume "trimmed s"
  with Cons have h: "\<not> is_space (hd s)" "\<not> is_space (last s)" by (simp_all add: trimmed_def)
  then have "dropWhile is_space s = s" using Cons by simp
  moreover have "rev s = last s # rev (butlast s)"
    using Cons by (metis append_butlast_last_id list.distinct(1) rev.simps(2) rev_append rev_singleton_conv append_Cons append_Nil)
  then obtain y ys where y: "rev s = y # ys" "y = last s" by blast
  have "dropWhile is_space (y # ys) = y # ys" using h(2) y(2) by simp
  then have "dropWhile is_space (rev s) = rev s"
    by (simp only: y(1))
  ultimately show ?thesis by (simp add: trim_def)
qed

lemma trim_nonempty: "s \<noteq> [] \<Longrightarrow> \<not> is_space (hd s) \<Longrightarrow> trim s \<noteq> []"
proof -
  assume a: "s \<noteq> []" "\<not> is_space (hd s)"
  then have d: "dropWhile is_space s = s" by (cases s) auto
  from dropWhile_rev_keeps_head[of s is_space, OF a] obtain t where
    "rev (dropWhile is_space (rev s)) = hd s # t" by blast
  then show ?thesis unfolding trim_def d by simp
qed

lemma first_result_Seq:
  "ms (Seq r1 r2) st = x # xs \<Longrightarrow> \<exists>y \<in> set (ms r1 st). \<exists>ys. ms r2 y = x # ys"
proof -
  have "concat (map f l) = x # xs \<Longrightarrow> \<exists>y \<in> set l. \<exists>ys. f y = x # ys"
    for f :: "mstate \<Rightarrow> mstate list" and l
  proof (induction l)
    case Nil
    then show ?case by simp
  next
    case (Cons a l)
    show ?case
    proof (cases "f a")
      case Nil
      with Cons show ?thesis by simp
    next
      case (Cons b bs)
      with Cons.prems show ?thesis by simp
    qed
  qed
  then show "ms (Seq r1 r2) st = x # xs \<Longrightarrow> ?thesis" by simp
qed

lemma suffixes_head: "\<exists>rest. suffixes l = [] # rest"
  by (induction l) auto

text \<open>The first match of a pattern that ends in a greedy \<open>[class]+\<close> takes the whole run.\<close>

lemma plus_class_first_rest:
  assumes "ms (Plus True (Chr P)) y = x # xs"
  shows "fst x = [] \<or> \<not> P (hd (fst x))"
proof -
  obtain s caps where y: "y = (s, caps)" by (cases y)
  show ?thesis
  proof (cases s)
    case Nil
    with assms y show ?thesis by (simp add: Plus_def)
  next
    case (Cons c t)
    show ?thesis
    proof (cases "P c")
      case False
      with Cons assms y show ?thesis by (simp add: Plus_def)
    next
      case True
      have d: "dropWhile P t = [] \<or> \<not> P (hd (dropWhile P t))"
        by (cases "dropWhile P t = []") (simp_all add: hd_dropWhile)
      have a: "\<forall>x \<in> set (takeWhile P t). P x" by (auto dest: set_takeWhileD)
      have "ms (Plus True (Chr P)) (c # takeWhile P t @ dropWhile P t, caps)
          = map (\<lambda>ys. (ys @ dropWhile P t, caps)) (suffixes (takeWhile P t))"
        by (rule plus_class[OF True a d])
      then have "ms (Plus True (Chr P)) y
          = map (\<lambda>ys. (ys @ dropWhile P t, caps)) (suffixes (takeWhile P t))"
        using y Cons by simp
      then have "x # xs = map (\<lambda>ys. (ys @ dropWhile P t, caps)) (suffixes (takeWhile P t))"
        by (simp only: assms)
      moreover obtain rest where "suffixes (takeWhile P t) = [] # rest"
        using suffixes_head by blast
      ultimately have "x = (dropWhile P t, caps)" by simp
      with d show ?thesis by simp
    qed
  qed
qed

lemma itemPattern_first_rest:
  assumes "ms itemPattern st = x # xs"
  shows "fst x = [] \<or> \<not> is_space (hd (fst x))"
proof -
  from first_result_Seq[OF assms[unfolded itemPattern_def]] obtain y1 ys1 where
    "ms (Seq (Star True (Chr is_space))
         (Seq (Alt (Seq (Plus True (Chr is_digit)) (Ch CHR ''.'')) (Alt (Ch CHR ''-'') (Ch CHR ''*'')))
           (Plus True (Chr is_space)))) y1 = x # ys1" by blast
  from first_result_Seq[OF this] obtain y2 ys2 where
    "ms (Seq (Alt (Seq (Plus True (Chr is_digit)) (Ch CHR ''.'')) (Alt (Ch CHR ''-'') (Ch CHR ''*'')))
           (Plus True (Chr is_space))) y2 = x # ys2" by blast
  from first_result_Seq[OF this] obtain y3 ys3 where
    "ms (Plus True (Chr is_space)) y3 = x # ys3" by blast
  then show ?thesis by (rule plus_class_first_rest)
qed

text \<open>No piece of the split begins with white space, if the text does not.\<close>

lemma split_loop_pieces:
  "(\<And>s st sts. ms r (s, []) = st # sts \<Longrightarrow> fst st = [] \<or> \<not> is_space (hd (fst st))) \<Longrightarrow>
   piece = [] \<or> \<not> is_space (hd piece) \<Longrightarrow>
   piece \<noteq> [] \<or> s = [] \<or> \<not> is_space (hd s) \<Longrightarrow>
   p \<in> set (split_loop r piece s) \<Longrightarrow> p = [] \<or> \<not> is_space (hd p)"
proof (induction r piece s rule: split_loop.induct)
  case (1 r piece s)
  show ?case
  proof (cases s)
    case Nil
    with "1.prems"(4) have "p = piece" by (subst (asm) split_loop.simps) simp
    with "1.prems"(2) show ?thesis by simp
  next
    case (Cons c cs)
    have grow: "piece @ [c] = [] \<or> \<not> is_space (hd (piece @ [c]))"
      using "1.prems"(2,3) Cons by (cases piece) auto
    show ?thesis
    proof (cases "ms r (s, [])")
      case Nil
      with "1.prems"(4) Cons have "p \<in> set (split_loop r (piece @ [c]) cs)"
        by (subst (asm) split_loop.simps) simp
      from "1.IH"(1)[OF Cons Nil "1.prems"(1) grow _ this] show ?thesis by simp
    next
      case m: (Cons st sts)
      show ?thesis
      proof (cases "length (fst st) = length s \<and> piece = []")
        case True
        with "1.prems"(4) Cons m have "p \<in> set (split_loop r (piece @ [c]) cs)"
          by (subst (asm) split_loop.simps) simp
        from "1.IH"(2)[OF Cons m True "1.prems"(1) grow _ this] show ?thesis by simp
      next
        case False
        with "1.prems"(4) Cons m have "p = piece \<or> p \<in> set (split_loop r [] (fst st))"
          by (subst (asm) split_loop.simps) auto
        then show ?thesis
        proof
          assume "p = piece" with "1.prems"(2) show ?thesis by simp
        next
          assume p: "p \<in> set (split_loop r [] (fst st))"
          have "fst st = [] \<or> \<not> is_space (hd (fst st))" using "1.prems"(1)[OF m] .
          with "1.IH"(3)[OF Cons m False "1.prems"(1) _ _ p] show ?thesis by simp
        qed
      qed
    qed
  qed
qed

lemma bestPracticesOf_items:
  assumes "p \<in> set (bestPracticesOf rawText)"
  shows "p \<noteq> [] \<and> trim p = p"
proof (cases "exec bestPracticesPattern rawText")
  case None
  with assms show ?thesis by (simp add: bestPracticesOf_def)
next
  case (Some m)
  let ?t = "trim (group_text m 1)"
  show ?thesis
  proof (cases "group_text m 1 = []")
    case True
    with assms Some show ?thesis by (simp add: bestPracticesOf_def)
  next
    case False
    with assms Some have "p \<in> set (map trim (filter (\<lambda>p. p \<noteq> []) (split_rx itemPattern ?t)))"
      by (simp add: bestPracticesOf_def Let_def)
    then obtain q where q: "p = trim q" "q \<noteq> []" "q \<in> set (split_rx itemPattern ?t)"
      by auto
    have ne: "?t \<noteq> []"
    proof
      assume "?t = []"
      with q(3) have "q = []" by (simp add: split_rx_def split: if_splits)
      with q(2) show False by simp
    qed
    then have ql: "q \<in> set (split_loop itemPattern [] ?t)" using q(3) by (simp add: split_rx_def)
    have t: "[] \<noteq> [] \<or> ?t = [] \<or> \<not> is_space (hd ?t)"
      using trimmed_trim[of "group_text m 1"] by (auto simp: trimmed_def)
    have "q = [] \<or> \<not> is_space (hd q)"
      by (rule split_loop_pieces[of itemPattern "[]" ?t q, OF itemPattern_first_rest _ t ql]) simp_all
    with q(2) have "\<not> is_space (hd q)" by simp
    with q(2) have "trim q \<noteq> []" by (rule trim_nonempty)
    moreover have "trim (trim q) = trim q" using trim_trimmed[OF trimmed_trim] .
    ultimately show ?thesis using q(1) by simp
  qed
qed

text \<open>A lazy \<open>.*?\<close> offers every split of the rest of the text, shortest first.\<close>

lemma lazy_any:
  "ms (Star False (Chr any_char)) (s, c) = map (\<lambda>ys. (ys, c)) (rev (suffixes s))"
proof (induction s)
  case Nil
  then show ?case by (simp add: star_iter.simps)
next
  case (Cons x xs)
  have "ms (Chr any_char) (x # xs, c) = [(xs, c)]" by (simp add: any_char_def)
  then have "ms (Star False (Chr any_char)) (x # xs, c)
      = (x # xs, c) # ms (Star False (Chr any_char)) (xs, c)"
    by (simp add: star_iter.simps[of _ _ "(x # xs, c)"])
  with Cons show ?case by simp
qed

lemma nonempty_suffixes:
  assumes "a \<in> set (tl (suffixes A))"
  shows "suffix a A \<and> a \<noteq> []"
proof -
  obtain rest where r: "suffixes A = [] # rest" using suffixes_head by blast
  with assms have "a \<in> set rest" by simp
  moreover have "distinct (suffixes A)" by (rule distinct_suffixes)
  ultimately have "a \<noteq> []" using r by auto
  moreover have "suffix a A" using assms in_set_suffixes list.set_sel(2) r by (metis list.distinct(1))
  ultimately show ?thesis by simp
qed

lemma Look_empty: "ms r st = [] \<Longrightarrow> ms (Look r) st = []"
  by simp

text \<open>
  The first match of a section pattern, when the label matches at the start of the
  text: after the label and the longest run of colons and white space the lazy group
  grows until it stands before a newline from which the lookahead succeeds.
\<close>

lemma section_capture:
  assumes lab: "first label (raw, []) = Some (sep @ A @ newline # u, c0)"
    and sep: "sep \<noteq> []" "\<forall>x \<in> set sep. x = CHR '':'' \<or> is_space x"
    and A: "A \<noteq> []" "\<not> (hd A = CHR '':'' \<or> is_space (hd A))"
    and inner: "\<And>a caps. suffix a A \<Longrightarrow> a \<noteq> [] \<Longrightarrow> hd a = newline \<Longrightarrow>
        ms (Seq (Star True (Chr is_space)) following) (tl a @ newline # u, caps) = []"
    and fin: "\<And>caps. ms (Seq (Star True (Chr is_space)) following) (u, caps) \<noteq> []"
    and nog: "1 \<notin> group_ids following"
  shows "\<exists>caps. first (sectionPattern label following) (raw, []) = Some (newline # u, caps)
            \<and> map_of caps 1 = Some A"
proof -
  let ?t = "newline # u"
  let ?L = "Seq (Ch newline) (Seq (Star True (Chr is_space)) following)"
  let ?G = "Group 1 (Star False (Chr any_char))"
  let ?tag = "\<lambda>ys. (ys, (1, take (length (A @ ?t) - length ys) (A @ ?t)) # c0)"
  obtain x xs where x: "sep = x # xs" using sep(1) by (cases sep) auto
  have s1: "first (Plus True (Chr (\<lambda>c. c = CHR '':'' \<or> is_space c))) (sep @ A @ ?t, c0)
      = Some (A @ ?t, c0)"
    using first_plus_class[of "\<lambda>c. c = CHR '':'' \<or> is_space c" x xs "A @ ?t" c0] sep(2) A x
    by (cases A) auto
  have "ms ?G (A @ ?t, c0)
      = map (\<lambda>st'. (fst st', (1, take (length (fst (A @ ?t, c0)) - length (fst st')) (fst (A @ ?t, c0))) # snd st'))
          (ms (Star False (Chr any_char)) (A @ ?t, c0))"
    by (rule ms.simps)
  also have "\<dots> = map ?tag (rev (suffixes (A @ ?t)))"
    by (simp only: lazy_any map_map comp_def fst_conv snd_conv)
  also have "rev (suffixes (A @ ?t))
      = map (\<lambda>a. a @ ?t) (rev (tl (suffixes A))) @ ?t # rev (suffixes u)"
    by (simp add: suffixes_append rev_map)
  finally have split: "ms ?G (A @ ?t, c0)
      = map ?tag (map (\<lambda>a. a @ ?t) (rev (tl (suffixes A)))) @ ?tag ?t # map ?tag (rev (suffixes u))"
    by simp
  have fail: "\<forall>st \<in> set (map ?tag (map (\<lambda>a. a @ ?t) (rev (tl (suffixes A))))). ms (Look ?L) st = []"
  proof
    fix st assume "st \<in> set (map ?tag (map (\<lambda>a. a @ ?t) (rev (tl (suffixes A)))))"
    then obtain a where a: "a \<in> set (tl (suffixes A))" "st = ?tag (a @ ?t)" by auto
    from nonempty_suffixes[OF a(1)] have sa: "suffix a A" "a \<noteq> []" by simp_all
    then obtain y ys where y: "a = y # ys" by (cases a) auto
    have "ms ?L st = []"
    proof (cases "y = newline")
      case True
      with inner[OF sa] y have "ms (Seq (Star True (Chr is_space)) following)
          (ys @ ?t, snd st) = []" by simp
      with True y a(2) show ?thesis by (simp add: Ch_def)
    next
      case False
      with y a(2) show ?thesis by (simp add: Ch_def)
    qed
    then show "ms (Look ?L) st = []" by (rule Look_empty)
  qed
  have tagt: "?tag ?t = (?t, (1, A) # c0)" by simp
  obtain b bs where b: "ms (Seq (Star True (Chr is_space)) following) (u, (1, A) # c0) = b # bs"
    using fin[of "(1, A) # c0"] by (cases "ms (Seq (Star True (Chr is_space)) following) (u, (1, A) # c0)") auto
  then have "ms ?L (?t, (1, A) # c0) = b # bs" by (simp add: Ch_def)
  then have look: "first (Look ?L) (?tag ?t) = Some (?t, snd b)"
    unfolding tagt by (simp add: first_def)
  have "b \<in> set (ms (Seq (Star True (Chr is_space)) following) (u, (1, A) # c0))" using b by simp
  from ms_caps[OF this, of 1] nog have cap: "map_of (snd b) 1 = Some A" by simp
  have "first (Seq ?G (Look ?L)) (A @ ?t, c0) = Some (?t, snd b)"
    by (rule first_skip[OF split fail look])
  from first_Seq[OF s1 this] have "first (Seq (Plus True (Chr (\<lambda>c. c = CHR '':'' \<or> is_space c)))
      (Seq ?G (Look ?L))) (sep @ A @ ?t, c0) = Some (?t, snd b)" .
  from first_Seq[OF lab this] have "first (sectionPattern label following) (raw, []) = Some (?t, snd b)"
    by (simp add: sectionPattern_def)
  with cap show ?thesis by blast
qed

lemma LitCI_match:
  "same_ci l s \<Longrightarrow> ms (LitCI s) (l @ t, c) = [(t, c)]"
proof (induction s arbitrary: l)
  case Nil
  then show ?case by (simp add: LitCI_def same_ci_def)
next
  case (Cons x s)
  then obtain y l' where l: "l = y # l'" "lower_ascii y = lower_ascii x" "same_ci l' s"
    by (cases l) (auto simp: same_ci_def)
  have "ms (LitCI (x # s)) (l @ t, c) = ms (LitCI s) (l' @ t, c)"
    using l(1,2) by (simp add: LitCI_def)
  with Cons.IH[OF l(3)] show ?case by simp
qed

lemma LitCI_mismatch:
  assumes "inp = [] \<or> lower_ascii (hd inp) \<noteq> lower_ascii x"
  shows "ms (LitCI (x # s)) (inp, c) = []"
  using assms by (cases inp) (auto simp: LitCI_def)

lemma group_ids_LitCI: "group_ids (LitCI s) = {}"
  by (induction s) (simp_all add: LitCI_def)

lemma space_lower: "is_space x \<Longrightarrow> lower_ascii x = x"
  by (auto simp: is_space_def lower_ascii_def Let_def)

lemma first_Alt_left: "first r1 st = Some a \<Longrightarrow> first (Alt r1 r2) st = Some a"
  by (auto simp: first_def split: list.splits)

lemma first_Alt_right: "ms r1 st = [] \<Longrightarrow> first r2 st = Some a \<Longrightarrow> first (Alt r1 r2) st = Some a"
  by (auto simp: first_def split: list.splits)

lemma first_LitCI: "same_ci l s \<Longrightarrow> first (LitCI s) (l @ t, c) = Some (t, c)"
  by (simp add: first_def LitCI_match)

text \<open>White space and then a pattern that matches: the lookahead's tail succeeds.\<close>

lemma after_spaces:
  assumes "\<forall>x \<in> set ws. is_space x" "t = [] \<or> \<not> is_space (hd t)" "ms r (t, caps) \<noteq> []"
  shows "ms (Seq (Star True (Chr is_space)) r) (ws @ t, caps) \<noteq> []"
proof -
  obtain rest where "suffixes ws = [] # rest" using suffixes_head by blast
  then have "ms (Star True (Chr is_space)) (ws @ t, caps) = (t, caps) # map (\<lambda>ys. (ys @ t, caps)) rest"
    using star_class[OF assms(1,2), of caps] by simp
  with assms(3) show ?thesis by simp
qed

lemma same_ci_head:
  "same_ci l (x # s) \<Longrightarrow> l \<noteq> [] \<and> lower_ascii (hd l) = lower_ascii x"
  by (cases l) (auto simp: same_ci_def)

text \<open>\<open>exec\<close> passes over a stretch of text in which no match starts.\<close>

lemma exec_skip:
  "(\<And>p. suffix p pre \<Longrightarrow> p \<noteq> [] \<Longrightarrow> ms r (p @ s, []) = []) \<Longrightarrow>
   exec r (pre @ s) = map_option (\<lambda>m. m\<lparr>lead := pre @ lead m\<rparr>) (exec r s)"
proof (induction pre)
  case Nil
  then show ?case by (cases "exec r s") simp_all
next
  case (Cons x xs)
  have "ms r ((x # xs) @ s, []) = []" using Cons.prems[of "x # xs"] by simp
  then have "exec r ((x # xs) @ s) = map_option (\<lambda>m. m\<lparr>lead := x # lead m\<rparr>) (exec r (xs @ s))"
    by (subst exec.simps) simp
  moreover have "exec r (xs @ s) = map_option (\<lambda>m. m\<lparr>lead := xs @ lead m\<rparr>) (exec r s)"
    using Cons.prems by (intro Cons.IH) (simp add: suffix_Cons)
  ultimately show ?case by (cases "exec r s") simp_all
qed

text \<open>
  A literal without a newline cannot match from inside a stretch of text that ends at a
  newline and does not contain the literal.
\<close>

lemma LitCI_not_before_newline:
  assumes p: "suffix p pre" and free: "\<not> occurs_ci {map lower_ascii w} pre"
    and nl: "newline \<notin> set w"
  shows "ms (LitCI w) (p @ newline # s, c) = []"
proof (rule ccontr)
  assume "ms (LitCI w) (p @ newline # s, c) \<noteq> []"
  then obtain st' where "st' \<in> set (ms (LitCI w) (p @ newline # s, c))"
    by (cases "ms (LitCI w) (p @ newline # s, c)") auto
  from ms_LitCI[OF this] obtain l where
    l: "p @ newline # s = l @ fst st'" "map lower_ascii l = map lower_ascii w" by auto
  show False
  proof (cases "length l \<le> length p")
    case True
    with l(1) obtain p' where "p = l @ p'"
      by (metis append_eq_append_conv_if append_take_drop_id)
    moreover obtain q where "pre = q @ p" using p by (auto simp: suffix_def)
    ultimately have "map lower_ascii pre = map lower_ascii q @ map lower_ascii w @ map lower_ascii p'"
      using l(2) by simp
    then have "sublist (map lower_ascii w) (map lower_ascii pre)" unfolding sublist_def by blast
    with free show False by (simp add: occurs_ci_def)
  next
    case False
    then have "take (Suc (length p)) l = p @ [newline]"
      using l(1) by (metis append_eq_conv_conj append.assoc append_Cons append_Nil not_less_eq_eq take_Suc_conv_app_nth nth_append_length length_append_singleton take_all_iff le_refl append_eq_append_conv_if)
    then have "newline \<in> set l" by (metis in_set_takeD in_set_conv_decomp)
    then have "lower_ascii newline \<in> set (map lower_ascii w)" using l(2) by (metis image_eqI set_map)
    then obtain x where "x \<in> set w" "lower_ascii x = lower_ascii newline" by auto
    moreover have "lower_ascii newline = newline" by (simp add: lower_ascii_def newline_def)
    ultimately have "newline \<in> set w" using lower_ascii_newline by auto
    with nl show False by simp
  qed
qed

lemma space_not_letter:
  assumes "is_space x"
  shows "lower_ascii x \<noteq> CHR ''s'' \<and> lower_ascii x \<noteq> CHR ''b''
    \<and> lower_ascii x \<noteq> CHR ''p'' \<and> lower_ascii x \<noteq> CHR ''a''"
proof -
  have "\<not> is_space CHR ''s''" "\<not> is_space CHR ''b''" "\<not> is_space CHR ''p''" "\<not> is_space CHR ''a''"
    by (simp_all add: is_space_def)
  with assms have "x \<noteq> CHR ''s''" "x \<noteq> CHR ''b''" "x \<noteq> CHR ''p''" "x \<noteq> CHR ''a''"
    by blast+
  with space_lower[OF assms] show ?thesis by simp
qed

lemma is_space_newline: "is_space newline"
  by (simp add: is_space_def newline_def)

lemma suffix_append_cases:
  assumes "suffix p (x @ y)" "p \<noteq> []"
  shows "(\<exists>p'. p = p' @ y \<and> suffix p' x \<and> p' \<noteq> []) \<or> suffix p y"
proof -
  from assms(1) consider "suffix p y" | p' where "suffix p' x" "p = p' @ y"
    unfolding suffix_append by blast
  then show ?thesis
  proof cases
    case 1
    then show ?thesis by simp
  next
    case 2
    show ?thesis
    proof (cases "p' = []")
      case True
      with 2 show ?thesis by simp
    next
      case False
      with 2 show ?thesis by blast
    qed
  qed
qed

lemma lower_initials:
  "lower_ascii CHR ''S'' = CHR ''s''" "lower_ascii CHR ''B'' = CHR ''b''"
  "lower_ascii CHR ''P'' = CHR ''p''" "lower_ascii CHR ''A'' = CHR ''a''"
  by code_simp+

lemma occurs_ci_part:
  assumes "map lower_ascii w = x @ k @ y" "occurs_ci {map lower_ascii w} t"
  shows "occurs_ci {k} t"
proof -
  have "sublist k (map lower_ascii w)" unfolding assms(1) sublist_def by blast
  with assms(2) show ?thesis
    unfolding occurs_ci_def using sublist_order.order.trans by blast
qed

lemma spaces_then_label:
  assumes ws: "list_all is_space ws" and l: "l \<noteq> []" "\<not> is_space (hd l)"
    and m: "ms r (l @ rest, caps) \<noteq> []"
  shows "ms (Seq (Star True (Chr is_space)) r) (ws @ l @ rest, caps) \<noteq> []"
proof -
  have "l @ rest = [] \<or> \<not> is_space (hd (l @ rest))" using l by simp
  with after_spaces[of ws "l @ rest" r caps] ws m show ?thesis by (simp add: list_all_iff)
qed

text \<open>No label can start inside a stretch of text that does not contain it and ends at
  a newline, nor at the newline or in the white space after it.\<close>

lemma no_label_before:
  assumes x: "\<not> occurs_ci {map lower_ascii (c # w)} x" "newline \<notin> set (c # w)"
    and ws: "list_all is_space ws"
    and c: "\<And>y. is_space y \<Longrightarrow> lower_ascii y \<noteq> lower_ascii c"
    and p: "suffix p (x @ newline # ws)" "p \<noteq> []"
  shows "ms (LitCI (c # w)) (p @ t, caps) = []"
proof -
  from suffix_append_cases[OF p] show ?thesis
  proof
    assume "\<exists>p'. p = p' @ newline # ws \<and> suffix p' x \<and> p' \<noteq> []"
    then obtain p' where p': "p = p' @ newline # ws" "suffix p' x" by blast
    from LitCI_not_before_newline[OF p'(2) x, of "ws @ t" caps] p'(1) show ?thesis by simp
  next
    assume s: "suffix p (newline # ws)"
    with p(2) have "hd p \<in> set (newline # ws)" by (metis hd_in_set set_mono_suffix subsetD)
    then have "is_space (hd p)" using ws is_space_newline by (auto simp: list_all_iff)
    from c[OF this] p(2) show ?thesis by (intro LitCI_mismatch) simp
  qed
qed

lemma first_star_class:
  assumes "\<forall>x \<in> set xs. P x" "t = [] \<or> \<not> P (hd t)"
  shows "first (Star True (Chr P)) (xs @ t, caps) = Some (t, caps)"
proof -
  obtain rest where "suffixes xs = [] # rest" using suffixes_head by blast
  with star_class[OF assms, of caps] show ?thesis by (simp add: first_def)
qed

lemma marker_cases:
  assumes "is_marker m"
  obtains "m = ''-''" | "m = ''*''"
  | d ds where "m = d # ds @ ''.''" "is_digit d" "\<forall>x \<in> set ds. is_digit x"
proof -
  from assms consider "m = ''-''" | "m = ''*''"
    | "butlast m \<noteq> []" "list_all is_digit (butlast m)" "last m = CHR ''.''"
    unfolding is_marker_def by blast
  then show ?thesis
  proof cases
    case 3
    from 3(1) have "m \<noteq> []" by auto
    then have m: "m = butlast m @ [last m]" by simp
    from 3(1) obtain d ds where d: "butlast m = d # ds" by (cases "butlast m") auto
    with 3(2) have "is_digit d" "\<forall>x \<in> set ds. is_digit x" by (simp_all add: list_all_iff)
    moreover have "m = d # ds @ ''.''" using m d 3(3) by simp
    ultimately show ?thesis using that(3) by blast
  qed (use that in blast)+
qed

lemma marker_head:
  assumes "is_marker m"
  shows "m \<noteq> [] \<and> (is_digit (hd m) \<or> hd m = CHR ''-'' \<or> hd m = CHR ''*'')"
  using assms by (rule marker_cases) auto

lemma marker_match:
  assumes "is_marker m"
  shows "first (Alt (Seq (Plus True (Chr is_digit)) (Ch CHR ''.'')) (Alt (Ch CHR ''-'') (Ch CHR ''*'')))
           (m @ t, caps) = Some (t, caps)"
  using assms
proof (rule marker_cases)
  assume m: "m = ''-''"
  have "\<not> is_digit CHR ''-''" by (simp add: is_digit_def)
  then have "first (Plus True (Chr is_digit)) (CHR ''-'' # t, caps) = None"
    by (intro first_plus_class_None) simp
  then have "ms (Seq (Plus True (Chr is_digit)) (Ch CHR ''.'')) (CHR ''-'' # t, caps) = []"
    using first_Seq_None first_None_iff by blast
  moreover have "first (Alt (Ch CHR ''-'') (Ch CHR ''*'')) (CHR ''-'' # t, caps) = Some (t, caps)"
    by (rule first_Alt_left, rule first_Ch)
  ultimately show ?thesis using m first_Alt_right by simp
next
  assume m: "m = ''*''"
  have "\<not> is_digit CHR ''*''" by (simp add: is_digit_def)
  then have "first (Plus True (Chr is_digit)) (CHR ''*'' # t, caps) = None"
    by (intro first_plus_class_None) simp
  then have "ms (Seq (Plus True (Chr is_digit)) (Ch CHR ''.'')) (CHR ''*'' # t, caps) = []"
    using first_Seq_None first_None_iff by blast
  moreover have "ms (Ch CHR ''-'') (CHR ''*'' # t, caps) = []" by (simp add: Ch_def)
  then have "first (Alt (Ch CHR ''-'') (Ch CHR ''*'')) (CHR ''*'' # t, caps) = Some (t, caps)"
    by (rule first_Alt_right) (rule first_Ch)
  ultimately show ?thesis using m first_Alt_right by simp
next
  fix d ds
  assume m: "m = d # ds @ ''.''" and d: "is_digit d" "\<forall>x \<in> set ds. is_digit x"
  have "\<not> is_digit CHR ''.''" by (simp add: is_digit_def)
  then have "first (Plus True (Chr is_digit)) (d # ds @ CHR ''.'' # t, caps) = Some (CHR ''.'' # t, caps)"
    using d by (intro first_plus_class) simp_all
  then have "first (Seq (Plus True (Chr is_digit)) (Ch CHR ''.'')) (d # ds @ CHR ''.'' # t, caps)
      = Some (t, caps)"
    by (rule first_Seq) (rule first_Ch)
  then show ?thesis using m by (simp add: first_Alt_left)
qed

text \<open>At the newline of an item the split pattern matches up to the item's text.\<close>

lemma item_match:
  assumes "item_ok i"
  shows "first itemPattern (item_line i @ later, caps) = Some (item_text i @ later, caps)"
proof -
  let ?t = "item_text i @ later"
  from assms have ok: "\<forall>x \<in> set (indent i). is_space x" "is_marker (bullet i)"
    "spacing i \<noteq> []" "\<forall>x \<in> set (spacing i). is_space x" "item_text i \<noteq> []"
    "\<not> is_space (hd (item_text i))"
    by (auto simp: item_ok_def list_all_iff trimmed_def)
  obtain x xs where sp: "spacing i = x # xs" using ok(3) by (cases "spacing i") auto
  have "first (Plus True (Chr is_space)) (x # xs @ ?t, caps) = Some (?t, caps)"
    using ok(4,5,6) sp by (intro first_plus_class) simp_all
  then have s4: "first (Plus True (Chr is_space)) (spacing i @ ?t, caps) = Some (?t, caps)"
    using sp by simp
  have s3: "first (Seq (Alt (Seq (Plus True (Chr is_digit)) (Ch CHR ''.'')) (Alt (Ch CHR ''-'') (Ch CHR ''*'')))
           (Plus True (Chr is_space))) (bullet i @ spacing i @ ?t, caps) = Some (?t, caps)"
    by (rule first_Seq[OF marker_match[OF ok(2)] s4])
  have nsp: "\<not> is_space (hd (bullet i @ spacing i @ ?t))"
    using marker_head[OF ok(2)] by (auto simp: is_space_def is_digit_def Let_def)
  have s2: "first (Star True (Chr is_space)) (indent i @ bullet i @ spacing i @ ?t, caps)
      = Some (bullet i @ spacing i @ ?t, caps)"
    using ok(1) nsp by (intro first_star_class) simp_all
  have "first itemPattern (newline # indent i @ bullet i @ spacing i @ ?t, caps) = Some (?t, caps)"
    unfolding itemPattern_def
    by (rule first_Seq[OF first_Ch], rule first_Seq[OF s2 s3])
  then show ?thesis by (simp add: item_line_def)
qed

lemma itemPattern_at_newline:
  "s = [] \<or> hd s \<noteq> newline \<Longrightarrow> ms itemPattern (s, caps) = []"
  by (cases s) (auto simp: itemPattern_def Ch_def)

lemma split_plain:
  "newline \<notin> set it0 \<Longrightarrow>
   split_loop itemPattern piece (it0 @ s) = split_loop itemPattern (piece @ it0) s"
proof (induction it0 arbitrary: piece)
  case Nil
  then show ?case by simp
next
  case (Cons c cs)
  then have "ms itemPattern (c # cs @ s, []) = []" by (intro itemPattern_at_newline) auto
  then have "split_loop itemPattern piece ((c # cs) @ s) = split_loop itemPattern (piece @ [c]) (cs @ s)"
    by (subst split_loop.simps) simp
  with Cons.IH[of "piece @ [c]"] Cons.prems show ?case by simp
qed

lemma split_item:
  assumes "item_ok i"
  shows "split_loop itemPattern piece (item_line i @ later)
    = piece # split_loop itemPattern [] (item_text i @ later)"
proof -
  from item_match[OF assms, of later "[]"] obtain sts where
    m: "ms itemPattern (item_line i @ later, []) = (item_text i @ later, []) # sts"
    by (auto simp: first_def split: list.splits)
  have l: "length (item_text i @ later) \<noteq> length (item_line i @ later)"
    by (simp add: item_line_def)
  obtain cs where c: "item_line i @ later = newline # cs" by (simp add: item_line_def)
  show ?thesis
    using m l unfolding c by (subst split_loop.simps) simp
qed

lemma split_items:
  "newline \<notin> set it0 \<Longrightarrow> list_all item_ok items \<Longrightarrow>
   split_loop itemPattern piece (it0 @ concat (map item_line items))
     = (piece @ it0) # map item_text items"
proof (induction items arbitrary: piece it0)
  case Nil
  then show ?case using split_plain[of it0 piece "[]"] by (simp add: split_loop.simps[of _ _ "[]"])
next
  case (Cons i items)
  from Cons.prems have ok: "item_ok i" "list_all item_ok items" by simp_all
  then have nl: "newline \<notin> set (item_text i)" by (simp add: item_ok_def)
  have "split_loop itemPattern piece (it0 @ concat (map item_line (i # items)))
      = split_loop itemPattern (piece @ it0) (item_line i @ concat (map item_line items))"
    using split_plain[OF Cons.prems(1)] by simp
  also have "\<dots> = (piece @ it0) # split_loop itemPattern [] (item_text i @ concat (map item_line items))"
    by (rule split_item[OF ok(1)])
  also have "split_loop itemPattern [] (item_text i @ concat (map item_line items))
      = ([] @ item_text i) # map item_text items"
    by (rule Cons.IH[OF nl ok(2)])
  finally show ?case by simp
qed

text \<open>
  The first match of a section pattern whose label stands after \<open>pre\<close>, where no label
  can start: the captured text may run over several lines, as long as the lookahead
  fails at each of its newlines.
\<close>

lemma section_lines:
  assumes skip: "\<And>p. suffix p pre \<Longrightarrow> p \<noteq> [] \<Longrightarrow> ms label (p @ l @ sep @ A @ newline # u, []) = []"
    and lab: "first label (l @ sep @ A @ newline # u, []) = Some (sep @ A @ newline # u, [])"
    and sep: "label_gap sep"
    and A: "A \<noteq> []" "hd A \<noteq> CHR '':''" "\<not> is_space (hd A)"
    and inner: "\<And>x caps. suffix x A \<Longrightarrow> x \<noteq> [] \<Longrightarrow> hd x = newline \<Longrightarrow>
        ms (Seq (Star True (Chr is_space)) following) (tl x @ newline # u, caps) = []"
    and fin: "\<And>caps. ms (Seq (Star True (Chr is_space)) following) (u, caps) \<noteq> []"
    and nog: "1 \<notin> group_ids following"
  shows "\<exists>m. exec (sectionPattern label following) (pre @ l @ sep @ A @ newline # u) = Some m
           \<and> group_text m 1 = A"
proof -
  from sep A have "sep \<noteq> []" "\<forall>x \<in> set sep. x = CHR '':'' \<or> is_space x" "A \<noteq> []"
    "\<not> (hd A = CHR '':'' \<or> is_space (hd A))"
    by (simp_all add: label_gap_def list_all_iff)
  from section_capture[OF lab this inner fin nog] obtain caps where
    c: "first (sectionPattern label following) (l @ sep @ A @ newline # u, []) = Some (newline # u, caps)"
       "map_of caps 1 = Some A"
    by blast
  let ?s = "l @ sep @ A @ newline # u"
  from exec_of_first[OF c(1)] have e: "exec (sectionPattern label following) ?s
      = Some \<lparr>lead = [], matched = take (length ?s - length (newline # u)) ?s,
               groups = caps, after = newline # u\<rparr>"
    by simp
  have "ms (sectionPattern label following) (p @ ?s, []) = []" if "suffix p pre" "p \<noteq> []" for p
    using skip[OF that] by (simp add: sectionPattern_def)
  from exec_skip[of pre "sectionPattern label following" ?s, OF this]
  have "exec (sectionPattern label following) (pre @ ?s)
      = map_option (\<lambda>m. m\<lparr>lead := pre @ lead m\<rparr>) (exec (sectionPattern label following) ?s)"
    by simp
  with e c(2) show ?thesis by (simp add: group_text_def group_def)
qed

lemma spaces_then_none:
  assumes "list_all is_space ws" "t = [] \<or> \<not> is_space (hd t)"
    and "\<And>p. suffix p ws \<Longrightarrow> ms r (p @ t, caps) = []"
  shows "ms (Seq (Star True (Chr is_space)) r) (ws @ t, caps) = []"
proof -
  have "ms (Star True (Chr is_space)) (ws @ t, caps) = map (\<lambda>ys. (ys @ t, caps)) (suffixes ws)"
    using assms(1,2) by (intro star_class) (simp_all add: list_all_iff)
  moreover have "\<forall>p \<in> set (suffixes ws). ms r (p @ t, caps) = []"
    using assms(3) by (simp add: in_set_suffixes)
  ultimately show ?thesis by simp
qed

lemma marker_no_newline:
  assumes "is_marker m"
  shows "newline \<notin> set m"
proof -
  have n: "\<not> is_digit newline" by (simp add: is_digit_def newline_def)
  from assms show ?thesis
  proof (rule marker_cases)
    fix d ds
    assume "m = d # ds @ ''.''" "is_digit d" "\<forall>x \<in> set ds. is_digit x"
    with n show ?thesis by (auto simp: newline_def)
  qed (simp_all add: newline_def)
qed

text \<open>Inside a list of items a newline is followed by indentation and a marker.\<close>

lemma item_line_newline:
  assumes ok: "item_ok i" and a: "suffix a (item_line i)" "a \<noteq> []" "hd a = newline"
  shows "\<exists>ws. list_all is_space ws \<and> a = newline # ws @ bullet i @ spacing i @ item_text i"
proof -
  let ?t = "bullet i @ spacing i @ item_text i"
  have il: "item_line i = (newline # indent i) @ ?t" by (simp add: item_line_def)
  from suffix_append_cases[OF a(1)[unfolded il] a(2)] show ?thesis
  proof
    assume "\<exists>p'. a = p' @ ?t \<and> suffix p' (newline # indent i) \<and> p' \<noteq> []"
    then obtain p' where p': "a = p' @ ?t" "suffix p' (newline # indent i)" "p' \<noteq> []" by blast
    from p'(1,3) a(3) have h: "p' = newline # tl p'" by (cases p') auto
    have "set (tl p') \<subseteq> set p'" using p'(3) by (cases p') auto
    also have "\<dots> \<subseteq> set (newline # indent i)" using p'(2) by (rule set_mono_suffix)
    finally have "list_all is_space (tl p')"
      using ok is_space_newline by (auto simp: item_ok_def list_all_iff)
    moreover have "a = newline # tl p' @ ?t" using p'(1) h by (metis append_Cons)
    ultimately show ?thesis by blast
  next
    assume "suffix a ?t"
    with a(2) have "hd a \<in> set ?t" by (metis hd_in_set set_mono_suffix subsetD)
    moreover have "newline \<notin> set ?t"
      using ok marker_no_newline[of "bullet i"] by (simp add: item_ok_def)
    ultimately show ?thesis using a(3) by simp
  qed
qed

lemma items_newline:
  "list_all item_ok items \<Longrightarrow> suffix a (concat (map item_line items)) \<Longrightarrow> a \<noteq> [] \<Longrightarrow>
   hd a = newline \<Longrightarrow>
   \<exists>ws m later. list_all is_space ws \<and> is_marker m \<and> a = newline # ws @ m @ later"
proof (induction items)
  case Nil
  then show ?case by simp
next
  case (Cons i items)
  from Cons.prems(1) have ok: "item_ok i" "list_all item_ok items" by simp_all
  from Cons.prems(2) have "suffix a (item_line i @ concat (map item_line items))" by simp
  from suffix_append_cases[OF this Cons.prems(3)] show ?case
  proof
    assume "\<exists>p'. a = p' @ concat (map item_line items) \<and> suffix p' (item_line i) \<and> p' \<noteq> []"
    then obtain p' where p': "a = p' @ concat (map item_line items)" "suffix p' (item_line i)"
      "p' \<noteq> []" by blast
    with Cons.prems(4) have "hd p' = newline" by simp
    from item_line_newline[OF ok(1) p'(2,3) this] obtain ws where
      ws: "list_all is_space ws" "p' = newline # ws @ bullet i @ spacing i @ item_text i" by blast
    have "a = newline # ws @ bullet i @ (spacing i @ item_text i @ concat (map item_line items))"
      using p'(1) ws(2) by simp
    moreover have "is_marker (bullet i)" using ok(1) by (simp add: item_ok_def)
    ultimately show ?thesis using ws(1) by blast
  next
    assume "suffix a (concat (map item_line items))"
    from Cons.IH[OF ok(2) this Cons.prems(3,4)] show ?thesis .
  qed
qed

lemma plain_lower:
  assumes "is_space y \<or> is_digit y \<or> y = CHR ''-'' \<or> y = CHR ''*''"
  shows "lower_ascii y \<noteq> CHR ''c'' \<and> lower_ascii y \<noteq> CHR ''s''"
proof -
  have d: "lower_ascii y = y" if "is_digit y"
    using that by (auto simp: is_digit_def lower_ascii_def Let_def)
  have k: "lower_ascii CHR ''-'' = CHR ''-''" "lower_ascii CHR ''*'' = CHR ''*''" by code_simp+
  have n: "\<not> is_space CHR ''c''" "\<not> is_space CHR ''s''" "\<not> is_digit CHR ''c''" "\<not> is_digit CHR ''s''"
    by (simp_all add: is_space_def is_digit_def)
  from assms consider "is_space y" | "is_digit y" | "y = CHR ''-''" | "y = CHR ''*''" by blast
  then show ?thesis
  proof cases
    case 1
    with n(1,2) have "y \<noteq> CHR ''c''" "y \<noteq> CHR ''s''" by blast+
    with space_lower[OF 1] show ?thesis by simp
  next
    case 2
    with n(3,4) have "y \<noteq> CHR ''c''" "y \<noteq> CHR ''s''" by blast+
    with d[OF 2] show ?thesis by simp
  next
    case 3
    with k(1) show ?thesis by simp
  next
    case 4
    with k(2) show ?thesis by simp
  qed
qed

lemma best_following_fails:
  assumes "t \<noteq> []" "lower_ascii (hd t) \<noteq> CHR ''c''" "lower_ascii (hd t) \<noteq> CHR ''s''"
  shows "ms (Alt (LitCI ''Code Improvements'')
           (Alt (LitCI ''Suggested Improvements'') (Alt (LitCI ''Conclusion'') Eoi))) (t, caps) = []"
proof -
  have l: "lower_ascii CHR ''C'' = CHR ''c''" "lower_ascii CHR ''S'' = CHR ''s''" by code_simp+
  have "ms (LitCI ''Code Improvements'') (t, caps) = []"
    "ms (LitCI ''Suggested Improvements'') (t, caps) = []"
    "ms (LitCI ''Conclusion'') (t, caps) = []"
    using assms l by (simp_all add: LitCI_mismatch)
  with assms(1) show ?thesis by simp
qed

lemma line_start_split:
  assumes "line_start pre" "pre \<noteq> []"
  shows "\<exists>x w. pre = x @ newline # w \<and> list_all is_space w"
proof -
  from assms have "newline \<in> set (takeWhile is_space (rev pre))" by (simp add: line_start_def)
  then obtain a b where ab: "takeWhile is_space (rev pre) = a @ newline # b"
    by (auto dest: split_list)
  have "set a \<subseteq> set (takeWhile is_space (rev pre))" unfolding ab by auto
  then have sp: "list_all is_space (rev a)" by (auto simp: list_all_iff dest: set_takeWhileD)
  have "rev pre = (a @ newline # b) @ dropWhile is_space (rev pre)"
    using takeWhile_dropWhile_id[of is_space "rev pre"] ab by simp
  then have "rev (rev pre) = rev ((a @ newline # b) @ dropWhile is_space (rev pre))" by simp
  then have "pre = (rev (dropWhile is_space (rev pre)) @ rev b) @ newline # rev a" by simp
  with sp show ?thesis by blast
qed

lemma occurs_ci_prefix:
  assumes "occurs_ci ws x"
  shows "occurs_ci ws (x @ y)"
proof -
  from assms obtain w where w: "w \<in> ws" "sublist w (map lower_ascii x)"
    by (auto simp: occurs_ci_def)
  then obtain ps ss where "map lower_ascii x = ps @ w @ ss" by (auto simp: sublist_def)
  then have "map lower_ascii (x @ y) = ps @ w @ (ss @ map lower_ascii y)" by simp
  then have "sublist w (map lower_ascii (x @ y))" unfolding sublist_def by blast
  with w(1) show ?thesis by (auto simp: occurs_ci_def)
qed

lemma no_label_at_line_start:
  assumes free: "\<not> occurs_ci {map lower_ascii (c # w)} pre" and nl: "newline \<notin> set (c # w)"
    and ls: "line_start pre"
    and c: "\<And>y. is_space y \<Longrightarrow> lower_ascii y \<noteq> lower_ascii c"
    and p: "suffix p pre" "p \<noteq> []"
  shows "ms (LitCI (c # w)) (p @ t, caps) = []"
proof -
  from p have "pre \<noteq> []" by auto
  from line_start_split[OF ls this] obtain x ws where
    x: "pre = x @ newline # ws" "list_all is_space ws" by blast
  have "\<not> occurs_ci {map lower_ascii (c # w)} x"
    using free occurs_ci_prefix[of _ x "newline # ws"] unfolding x(1) by blast
  from no_label_before[OF this nl x(2) c p(1)[unfolded x(1)] p(2)] show ?thesis .
qed

lemma trimmed_items:
  "it0 \<noteq> [] \<Longrightarrow> trimmed it0 \<Longrightarrow> list_all item_ok items \<Longrightarrow>
   trimmed (it0 @ concat (map item_line items))"
proof (induction items rule: rev_induct)
  case Nil
  then show ?case by simp
next
  case (snoc i items)
  from snoc.prems(3) have "item_text i \<noteq> []" "\<not> is_space (last (item_text i))"
    by (auto simp: item_ok_def trimmed_def)
  then have "\<not> is_space (last (it0 @ concat (map item_line (items @ [i]))))"
    by (simp add: item_line_def)
  moreover have "\<not> is_space (hd (it0 @ concat (map item_line (items @ [i]))))"
    using snoc.prems(1,2) by (simp add: trimmed_def)
  ultimately show ?case by (simp add: trimmed_def)
qed

lemma best_label_first:
  assumes l: "same_ci l ''Best Practices'' \<or> same_ci l ''Prevention''"
  shows "first (Alt (LitCI ''Best Practices'') (LitCI ''Prevention'')) (l @ t, []) = Some (t, [])"
proof (cases "same_ci l ''Best Practices''")
  case True
  show ?thesis by (rule first_Alt_left, rule first_LitCI, rule True)
next
  case False
  with l have p: "same_ci l ''Prevention''" by simp
  from same_ci_head[OF p] have "l \<noteq> []" "lower_ascii (hd l) = CHR ''p''"
    by (simp_all add: lower_initials)
  then have "l @ t = [] \<or> lower_ascii (hd (l @ t)) \<noteq> lower_ascii CHR ''B''"
    by (simp add: lower_initials)
  then have "ms (LitCI ''Best Practices'') (l @ t, []) = []" by (rule LitCI_mismatch)
  then show ?thesis by (rule first_Alt_right) (rule first_LitCI, rule p)
qed

lemma best_section_end:
  assumes w: "list_all is_space w"
    and e: "(l4 = [] \<and> rest = []) \<or> same_ci l4 ''Code Improvements''
        \<or> same_ci l4 ''Suggested Improvements'' \<or> same_ci l4 ''Conclusion''"
  shows "ms (Seq (Star True (Chr is_space)) (Alt (LitCI ''Code Improvements'')
         (Alt (LitCI ''Suggested Improvements'') (Alt (LitCI ''Conclusion'') Eoi)))) (w @ l4 @ rest, caps) \<noteq> []"
proof (cases "l4 = [] \<and> rest = []")
  case True
  have "ms Eoi ([], caps) \<noteq> []" by simp
  then have "ms (Alt (LitCI ''Code Improvements'')
         (Alt (LitCI ''Suggested Improvements'') (Alt (LitCI ''Conclusion'') Eoi))) ([], caps) \<noteq> []"
    by (simp only: ms.simps(4) append_is_Nil_conv) simp
  from after_spaces[of w "[]" _ caps, OF _ _ this] w True show ?thesis
    by (simp add: list_all_iff)
next
  case False
  with e have s: "same_ci l4 ''Code Improvements''
      \<or> same_ci l4 ''Suggested Improvements'' \<or> same_ci l4 ''Conclusion''" by blast
  have cs: "lower_ascii CHR ''C'' = CHR ''c''" "lower_ascii CHR ''S'' = CHR ''s''" by code_simp+
  have h: "l4 \<noteq> [] \<and> (lower_ascii (hd l4) = CHR ''c'' \<or> lower_ascii (hd l4) = CHR ''s'')"
    using s
  proof (elim disjE)
    assume "same_ci l4 ''Code Improvements''"
    from same_ci_head[OF this] show ?thesis by (simp add: cs)
  next
    assume "same_ci l4 ''Suggested Improvements''"
    from same_ci_head[OF this] show ?thesis by (simp add: cs)
  next
    assume "same_ci l4 ''Conclusion''"
    from same_ci_head[OF this] show ?thesis by (simp add: cs)
  qed
  then have ns: "\<not> is_space (hd l4)" using plain_lower[of "hd l4"] by blast
  from h have ne: "l4 \<noteq> []" by simp
  show ?thesis
  proof (rule spaces_then_label[OF w ne ns])
    show "ms (Alt (LitCI ''Code Improvements'')
         (Alt (LitCI ''Suggested Improvements'') (Alt (LitCI ''Conclusion'') Eoi))) (l4 @ rest, caps) \<noteq> []"
      using s
    proof (elim disjE)
      assume "same_ci l4 ''Code Improvements''"
      from LitCI_match[OF this, of rest caps] show ?thesis by (simp only: ms.simps(4)) simp
    next
      assume "same_ci l4 ''Suggested Improvements''"
      from LitCI_match[OF this, of rest caps] show ?thesis by (simp only: ms.simps(4)) simp
    next
      assume "same_ci l4 ''Conclusion''"
      from LitCI_match[OF this, of rest caps] show ?thesis by (simp only: ms.simps(4)) simp
    qed
  qed
qed

lemma best_inner:
  assumes nl: "newline \<notin> set it0" and items: "list_all item_ok items"
    and x: "suffix x (it0 @ concat (map item_line items))" "x \<noteq> []" "hd x = newline"
  shows "ms (Seq (Star True (Chr is_space)) (Alt (LitCI ''Code Improvements'')
         (Alt (LitCI ''Suggested Improvements'') (Alt (LitCI ''Conclusion'') Eoi))))
           (tl x @ newline # u, caps) = []"
proof -
  let ?following = "Alt (LitCI ''Code Improvements'')
         (Alt (LitCI ''Suggested Improvements'') (Alt (LitCI ''Conclusion'') Eoi))"
  from suffix_append_cases[OF x(1,2)] have "suffix x (concat (map item_line items))"
  proof
    assume "\<exists>p'. x = p' @ concat (map item_line items) \<and> suffix p' it0 \<and> p' \<noteq> []"
    then obtain p' where p': "x = p' @ concat (map item_line items)" "suffix p' it0" "p' \<noteq> []"
      by blast
    from p'(1,3) have "hd x = hd p'" by simp
    moreover have "hd p' \<in> set p'" using p'(3) by simp
    moreover have "set p' \<subseteq> set it0" using p'(2) by (rule set_mono_suffix)
    ultimately have "hd x \<in> set it0" by auto
    with x(3) nl show ?thesis by simp
  qed
  from items_newline[OF items this x(2,3)] obtain ws m later where
    k: "list_all is_space ws" "is_marker m" "x = newline # ws @ m @ later" by blast
  let ?t = "m @ later @ newline # u"
  from marker_head[OF k(2)] have mh: "m \<noteq> []"
    "is_digit (hd m) \<or> hd m = CHR ''-'' \<or> hd m = CHR ''*''" by simp_all
  have ht: "hd ?t = hd m" "?t \<noteq> []" using mh(1) by simp_all
  have pl: "lower_ascii (hd m) \<noteq> CHR ''c'' \<and> lower_ascii (hd m) \<noteq> CHR ''s''"
    using mh(2) plain_lower[of "hd m"] by blast
  have "\<not> is_space (hd m)"
  proof
    assume "is_space (hd m)"
    moreover have "\<not> is_space CHR ''-''" "\<not> is_space CHR ''*''" by (simp_all add: is_space_def)
    moreover have "\<not> is_digit (hd m)" if "is_space (hd m)"
      using that by (auto simp: is_space_def is_digit_def Let_def)
    ultimately show False using mh(2) by metis
  qed
  then have t: "?t = [] \<or> \<not> is_space (hd ?t)" using ht by simp
  have "ms ?following (p @ ?t, caps) = []" if "suffix p ws" for p
  proof (cases p)
    case Nil
    have "ms ?following (?t, caps) = []"
      using ht pl by (intro best_following_fails) simp_all
    with Nil show ?thesis by simp
  next
    case (Cons y ys)
    have "set p \<subseteq> set ws" using that by (rule set_mono_suffix)
    with Cons have "y \<in> set ws" by auto
    with k(1) have "is_space y" by (simp add: list_all_iff)
    then have "lower_ascii y \<noteq> CHR ''c'' \<and> lower_ascii y \<noteq> CHR ''s''"
      using plain_lower[of y] by simp
    then have "ms ?following (y # ys @ ?t, caps) = []"
      by (intro best_following_fails) simp_all
    with Cons show ?thesis by simp
  qed
  from spaces_then_none[OF k(1) t this] have "ms (Seq (Star True (Chr is_space)) ?following)
      (ws @ ?t, caps) = []" .
  moreover have "tl x @ newline # u = ws @ ?t" using k(3) by simp
  ultimately show ?thesis by simp
qed

text \<open>
  Which texts a pattern leaves unread does not depend on the groups captured before:
  no pattern here refers back to a group.
\<close>

lemma concat_same_rest:
  "map fst xs = map fst ys \<Longrightarrow>
   (\<And>x caps. x \<in> set xs \<Longrightarrow> map fst (h x) = map fst (h (fst x, caps))) \<Longrightarrow>
   map fst (concat (map h xs)) = map fst (concat (map h ys))"
proof (induction xs arbitrary: ys)
  case Nil
  then show ?case by simp
next
  case (Cons x xs)
  then obtain y ys' where y: "ys = y # ys'" "fst x = fst y" "map fst xs = map fst ys'"
    by (cases ys) auto
  have "map fst (h x) = map fst (h (fst x, snd y))" using Cons.prems(2)[of x] by simp
  then have "map fst (h x) = map fst (h y)" using y(2) by simp
  moreover have "map fst (concat (map h xs)) = map fst (concat (map h ys'))"
    using Cons.IH[OF y(3)] Cons.prems(2) by simp
  ultimately show ?case using y(1) by simp
qed

lemma filter_same_rest:
  "map fst xs = map fst ys \<Longrightarrow>
   map fst (filter (\<lambda>x. P (fst x)) xs) = map fst (filter (\<lambda>x. P (fst x)) ys)"
proof (induction xs arbitrary: ys)
  case Nil
  then show ?case by simp
next
  case (Cons x xs)
  then obtain y ys' where "ys = y # ys'" "fst x = fst y" "map fst xs = map fst ys'"
    by (cases ys) auto
  with Cons.IH[of ys'] show ?case by simp
qed

lemma star_iter_same_rest:
  "(\<And>s c c'. map fst (f (s, c)) = map fst (f (s, c'))) \<Longrightarrow>
   map fst (star_iter f g st) = map fst (star_iter f g (fst st, caps))"
proof (induction f g st arbitrary: caps rule: star_iter.induct)
  case (1 f greedy st)
  let ?sel = "\<lambda>st. filter (\<lambda>st'. length (fst st') < length (fst st)) (f st)"
  have "map fst (f st) = map fst (f (fst st, caps))"
    using "1.prems"[of "fst st" "snd st" caps] by simp
  then have sel: "map fst (?sel st) = map fst (?sel (fst st, caps))"
    using filter_same_rest[of "f st" "f (fst st, caps)" "\<lambda>t. length t < length (fst st)"] by simp
  have more: "map fst (concat (map (star_iter f greedy) (?sel st)))
      = map fst (concat (map (star_iter f greedy) (?sel (fst st, caps))))"
    using sel
  proof (rule concat_same_rest)
    fix x c
    assume "x \<in> set (?sel st)"
    then show "map fst (star_iter f greedy x) = map fst (star_iter f greedy (fst x, c))"
      using "1.IH"[of x c] "1.prems" by simp
  qed
  have l: "star_iter f greedy st
      = (let more = concat (map (star_iter f greedy) (?sel st))
         in if greedy then more @ [st] else st # more)"
    by (rule star_iter.simps)
  have r: "star_iter f greedy (fst st, caps)
      = (let more = concat (map (star_iter f greedy) (?sel (fst st, caps)))
         in if greedy then more @ [(fst st, caps)] else (fst st, caps) # more)"
    by (rule star_iter.simps)
  have "map fst (if greedy then A @ [st] else st # A)
      = map fst (if greedy then B @ [(fst st, caps)] else (fst st, caps) # B)"
    if "map fst A = map fst B" for A B :: "mstate list"
    using that by simp
  from this[OF more] show ?case unfolding l r Let_def .
qed

lemma ms_same_rest: "map fst (ms r (s, c)) = map fst (ms r (s, c'))"
proof (induction r arbitrary: s c c')
  case (Chr P)
  then show ?case by (cases s) simp_all
next
  case (Seq r1 r2)
  show ?case
    unfolding ms.simps
  proof (rule concat_same_rest[OF Seq.IH(1)])
    fix x caps
    show "map fst (ms r2 x) = map fst (ms r2 (fst x, caps))"
      using Seq.IH(2)[of "fst x" "snd x" caps] by simp
  qed
next
  case (Star g r)
  show ?case using star_iter_same_rest[of "ms r" g "(s, c)" c'] Star.IH by simp
next
  case (Group i r)
  then show ?case by (simp add: comp_def)
next
  case (Look r)
  from Look.IH[of s c c'] show ?case
    by (cases "ms r (s, c)"; cases "ms r (s, c')") simp_all
next
  case (Alt r1 r2)
  from Alt.IH(1)[of s c c'] Alt.IH(2)[of s c c'] show ?case by simp
qed simp_all

lemma ms_empty_caps: "ms r (s, c) = [] \<longleftrightarrow> ms r (s, c') = []"
  using ms_same_rest[of r s c c'] by (metis map_is_Nil_conv)

lemma section_patterns:
  "analysisPattern = sectionPattern analysisLabel analysisEnd"
  "solutionPattern = sectionPattern solutionLabel solutionEnd"
  "bestPracticesPattern = sectionPattern bestPracticesLabel bestPracticesEnd"
  by (simp_all add: analysisPattern_def solutionPattern_def bestPracticesPattern_def
      analysisLabel_def analysisEnd_def solutionLabel_def solutionEnd_def
      bestPracticesLabel_def bestPracticesEnd_def)

lemma section_at_exec:
  assumes s: "section_at label following pre l gap body rest" and nog: "1 \<notin> group_ids following"
  shows "\<exists>m. exec (sectionPattern label following) (pre @ l @ gap @ body @ newline # rest) = Some m
           \<and> group_text m 1 = body"
proof (rule section_lines[OF _ _ _ _ _ _ _ _ nog])
  fix p
  assume "suffix p pre" "p \<noteq> []"
  with s show "ms label (p @ l @ gap @ body @ newline # rest, []) = []"
    by (simp add: section_at_def in_set_suffixes)
next
  from s show "first label (l @ gap @ body @ newline # rest, []) = Some (gap @ body @ newline # rest, [])"
    "label_gap gap" "body \<noteq> []" "hd body \<noteq> CHR '':''" "\<not> is_space (hd body)"
    by (simp_all add: section_at_def)
next
  fix x caps
  assume "suffix x body" "x \<noteq> []" "hd x = newline"
  with s have "ms (Seq (Star True (Chr is_space)) following) (tl x @ newline # rest, []) = []"
    by (simp add: section_at_def followed_by_def in_set_suffixes)
  then show "ms (Seq (Star True (Chr is_space)) following) (tl x @ newline # rest, caps) = []"
    using ms_empty_caps by blast
next
  fix caps
  from s have "ms (Seq (Star True (Chr is_space)) following) (rest, []) \<noteq> []"
    by (simp add: section_at_def followed_by_def)
  then show "ms (Seq (Star True (Chr is_space)) following) (rest, caps) \<noteq> []"
    using ms_empty_caps by blast
qed

lemma group_ids_ends:
  "1 \<notin> group_ids analysisEnd" "1 \<notin> group_ids solutionEnd" "1 \<notin> group_ids bestPracticesEnd"
  by (simp_all add: analysisEnd_def solutionEnd_def bestPracticesEnd_def group_ids_LitCI
      numbered_def Ch_def)

lemma analysisOf_section:
  assumes "section_at analysisLabel analysisEnd pre l gap body rest"
  shows "analysisOf (pre @ l @ gap @ body @ newline # rest) = Inr (trim body)"
proof -
  from section_at_exec[OF assms group_ids_ends(1)] obtain m where
    "exec analysisPattern (pre @ l @ gap @ body @ newline # rest) = Some m" "group_text m 1 = body"
    by (auto simp: section_patterns)
  moreover have "body \<noteq> []" using assms by (simp add: section_at_def)
  ultimately show ?thesis by (simp add: analysisOf_def)
qed

lemma solutionOf_section:
  assumes "section_at solutionLabel solutionEnd pre l gap body rest"
  shows "solutionOf (pre @ l @ gap @ body @ newline # rest) = trim body"
proof -
  from section_at_exec[OF assms group_ids_ends(2)] obtain m where
    "exec solutionPattern (pre @ l @ gap @ body @ newline # rest) = Some m" "group_text m 1 = body"
    by (auto simp: section_patterns)
  moreover have "body \<noteq> []" using assms by (simp add: section_at_def)
  ultimately show ?thesis by (simp add: solutionOf_def)
qed

text \<open>
  C4, as the code has it.  On every text the call returns a solution record.  The
  analysis is the body of the first analysis section as the pattern finds it, trimmed:
  the text after the first analysis label and its run of colons and white space, up to
  the first newline that is followed, after optional white space, by a label that ends
  the analysis; the body may run over several lines.  The solution is the body of the
  first solution section in the same way.  The end of the input does not end a section:
  if the text has no \<open>solution\<close> in it (in any letter case) the analysis is the first
  paragraph, trimmed; if it has neither \<open>best practices\<close> nor \<open>prevention\<close> in it the
  solution is empty.
\<close>

theorem C4_sections_end_before_next_label:
  "\<exists>sol. parseAIResponse (Some rawText) fileContents = Some (Inr sol)
     \<and> (rawText = pre @ l @ gap @ body @ newline # rest
          \<and> section_at analysisLabel analysisEnd pre l gap body rest
        \<longrightarrow> analysis sol = trim body)
     \<and> (rawText = pre' @ l' @ gap' @ body' @ newline # rest'
          \<and> section_at solutionLabel solutionEnd pre' l' gap' body' rest'
        \<longrightarrow> solution sol = trim body')
     \<and> (\<not> occurs_ci {''solution''} rawText \<longrightarrow> analysis sol = trim (first_paragraph rawText))
     \<and> (\<not> occurs_ci {''best practices'', ''prevention''} rawText \<longrightarrow> solution sol = [])"
proof -
  from parseAIResponse_returns[of rawText fileContents] obtain blocks an where
    p: "analysisOf rawText = Inr an"
       "parseAIResponse (Some rawText) fileContents
         = Some (Inr \<lparr>analysis = an, solution = solutionOf rawText,
                       codeSnippets = map (snippetOf fileContents) blocks,
                       bestPractices = bestPracticesOf rawText\<rparr>)"
    by blast
  have "an = trim body"
    if "rawText = pre @ l @ gap @ body @ newline # rest"
      "section_at analysisLabel analysisEnd pre l gap body rest"
    using analysisOf_section[OF that(2)] that(1) p(1) by simp
  moreover have "solutionOf rawText = trim body'"
    if "rawText = pre' @ l' @ gap' @ body' @ newline # rest'"
      "section_at solutionLabel solutionEnd pre' l' gap' body' rest'"
    using solutionOf_section[OF that(2)] that(1) by simp
  moreover have "an = trim (first_paragraph rawText)" if "\<not> occurs_ci {''solution''} rawText"
    using analysisOf_fallback[OF needs_exec[OF needs_analysisPattern that]] p(1) by simp
  moreover have "solutionOf rawText = []" if "\<not> occurs_ci {''best practices'', ''prevention''} rawText"
    using needs_exec[OF needs_solutionPattern that] by (simp add: solutionOf_def)
  ultimately show ?thesis using p(2) by simp
qed

theorem C4_sections_end_before_next_label_witness:
  "(\<exists>sol. parseAIResponse
       (Some ''Summary\<newline>Issue Analysis: line one\<newline>line two\<newline>2. Solution:\<newline>add one\<newline>and test\<newline>Prevention: test\<newline>'')
       None = Some (Inr sol)
     \<and> analysis sol = ''line one\<newline>line two'' \<and> solution sol = ''add one\<newline>and test'')
   \<and> (\<exists>sol. parseAIResponse (Some ''Analysis: the bug is X\<newline>\<newline>More text'') None = Some (Inr sol)
     \<and> analysis sol = ''Analysis: the bug is X'' \<and> solution sol = [])"
proof -
  let ?raw = "''Summary\<newline>Issue Analysis: line one\<newline>line two\<newline>2. Solution:\<newline>add one\<newline>and test\<newline>Prevention: test\<newline>''"
  let ?raw2 = "''Analysis: the bug is X\<newline>\<newline>More text''"
  have a: "section_at analysisLabel analysisEnd ''Summary\<newline>'' ''Issue Analysis'' '': ''
      ''line one\<newline>line two'' ''2. Solution:\<newline>add one\<newline>and test\<newline>Prevention: test\<newline>''"
    by code_simp
  have s: "section_at solutionLabel solutionEnd
      ''Summary\<newline>Issue Analysis: line one\<newline>line two\<newline>2. '' ''Solution'' '':\<newline>''
      ''add one\<newline>and test'' ''Prevention: test\<newline>''"
    by code_simp
  have t: "trim ''line one\<newline>line two'' = ''line one\<newline>line two''"
    "trim ''add one\<newline>and test'' = ''add one\<newline>and test''"
    "trim (first_paragraph ?raw2) = ''Analysis: the bug is X''"
    by code_simp+
  have "\<not> str_includes (map lower_ascii ?raw2) ''solution''"
    "\<not> str_includes (map lower_ascii ?raw2) ''best practices''"
    "\<not> str_includes (map lower_ascii ?raw2) ''prevention''"
    by code_simp+
  then have o: "\<not> occurs_ci {''solution''} ?raw2" "\<not> occurs_ci {''best practices'', ''prevention''} ?raw2"
    by (simp_all add: occurs_ci_def str_includes_sublist)
  from C4_sections_end_before_next_label[of ?raw None "''Summary\<newline>''" "''Issue Analysis''" "'': ''"
      "''line one\<newline>line two''" "''2. Solution:\<newline>add one\<newline>and test\<newline>Prevention: test\<newline>''"
      "''Summary\<newline>Issue Analysis: line one\<newline>line two\<newline>2. ''" "''Solution''" "'':\<newline>''"
      "''add one\<newline>and test''" "''Prevention: test\<newline>''"]
  obtain sol where sol: "parseAIResponse (Some ?raw) None = Some (Inr sol)"
    "?raw = ''Summary\<newline>'' @ ''Issue Analysis'' @ '': '' @ ''line one\<newline>line two'' @ newline #
        ''2. Solution:\<newline>add one\<newline>and test\<newline>Prevention: test\<newline>''
      \<and> section_at analysisLabel analysisEnd ''Summary\<newline>'' ''Issue Analysis'' '': ''
        ''line one\<newline>line two'' ''2. Solution:\<newline>add one\<newline>and test\<newline>Prevention: test\<newline>''
     \<longrightarrow> analysis sol = trim ''line one\<newline>line two''"
    "?raw = ''Summary\<newline>Issue Analysis: line one\<newline>line two\<newline>2. '' @ ''Solution'' @ '':\<newline>'' @
        ''add one\<newline>and test'' @ newline # ''Prevention: test\<newline>''
      \<and> section_at solutionLabel solutionEnd
        ''Summary\<newline>Issue Analysis: line one\<newline>line two\<newline>2. '' ''Solution'' '':\<newline>''
        ''add one\<newline>and test'' ''Prevention: test\<newline>''
     \<longrightarrow> solution sol = trim ''add one\<newline>and test''"
    by blast
  have "analysis sol = trim ''line one\<newline>line two''" using sol(2) a by (simp add: newline_def)
  moreover have "solution sol = trim ''add one\<newline>and test''" using sol(3) s by (simp add: newline_def)
  ultimately have 1: "\<exists>sol. parseAIResponse (Some ?raw) None = Some (Inr sol)
     \<and> analysis sol = ''line one\<newline>line two'' \<and> solution sol = ''add one\<newline>and test''"
    using sol(1) t(1,2) by (intro exI[of _ sol]) (simp only: simp_thms)
  from C4_sections_end_before_next_label[of ?raw2 None] obtain sol2 where
    sol2: "parseAIResponse (Some ?raw2) None = Some (Inr sol2)"
      "\<not> occurs_ci {''solution''} ?raw2 \<longrightarrow> analysis sol2 = trim (first_paragraph ?raw2)"
      "\<not> occurs_ci {''best practices'', ''prevention''} ?raw2 \<longrightarrow> solution sol2 = []"
    by blast
  from sol2(2) o(1) have "analysis sol2 = trim (first_paragraph ?raw2)" by blast
  moreover from sol2(3) o(2) have "solution sol2 = []" by blast
  ultimately have 2: "\<exists>sol. parseAIResponse (Some ?raw2) None = Some (Inr sol)
     \<and> analysis sol = ''Analysis: the bug is X'' \<and> solution sol = []"
    using sol2(1) t(3) by (intro exI[of _ sol2]) (simp only: simp_thms)
  from 1 2 show ?thesis by blast
qed

text \<open>
  A best-practices section laid out as a list is a section as the pattern finds it: the
  label stands at the start of a line, with no label text before it; after the gap come
  a first line and the items; the section ends at the end of the text or before one of
  the labels that end it.
\<close>

lemma list_section:
  assumes free: "\<not> occurs_ci {''best practices'', ''prevention''} pre" and ls: "line_start pre"
    and l: "same_ci l ''Best Practices'' \<or> same_ci l ''Prevention''" and g: "label_gap g"
    and it0: "one_line it0" and items: "list_all item_ok items"
    and w: "list_all is_space w"
    and e: "(l4 = [] \<and> rest = []) \<or> same_ci l4 ''Code Improvements''
        \<or> same_ci l4 ''Suggested Improvements'' \<or> same_ci l4 ''Conclusion''"
  shows "section_at bestPracticesLabel bestPracticesEnd pre l g
      (it0 @ concat (map item_line items)) (w @ l4 @ rest)"
proof -
  let ?A = "it0 @ concat (map item_line items)"
  let ?u = "w @ l4 @ rest"
  from it0 have i0: "it0 \<noteq> []" "hd it0 \<noteq> CHR '':''" "\<not> is_space (hd it0)" "newline \<notin> set it0"
    by (simp_all add: one_line_def)
  have lab: "first bestPracticesLabel (l @ g @ ?A @ newline # ?u, []) = Some (g @ ?A @ newline # ?u, [])"
    unfolding bestPracticesLabel_def by (rule best_label_first[OF l])
  have wd: "map lower_ascii ''Best Practices'' = [] @ ''best practices'' @ []"
    "map lower_ascii ''Prevention'' = [] @ ''prevention'' @ []"
    by code_simp+
  have "\<not> occurs_ci {''best practices''} pre" "\<not> occurs_ci {''prevention''} pre"
    using free by (simp_all add: occurs_ci_def)
  then have fr: "\<not> occurs_ci {map lower_ascii ''Best Practices''} pre"
    "\<not> occurs_ci {map lower_ascii ''Prevention''} pre"
    using occurs_ci_part[OF wd(1)] occurs_ci_part[OF wd(2)] by blast+
  have nl: "newline \<notin> set ''Best Practices''" "newline \<notin> set ''Prevention''"
    by (simp_all add: newline_def)
  have spb: "\<And>y. is_space y \<Longrightarrow> lower_ascii y \<noteq> lower_ascii CHR ''B''"
    and spp: "\<And>y. is_space y \<Longrightarrow> lower_ascii y \<noteq> lower_ascii CHR ''P''"
    using space_not_letter by (simp_all add: lower_initials)
  have skip: "ms bestPracticesLabel (p @ l @ g @ ?A @ newline # ?u, []) = []"
    if "p \<in> set (suffixes pre)" "p \<noteq> []" for p
    using no_label_at_line_start[OF fr(1) nl(1) ls spb _ that(2)]
      no_label_at_line_start[OF fr(2) nl(2) ls spp _ that(2)] that(1)
    by (simp add: bestPracticesLabel_def in_set_suffixes)
  have fin: "followed_by bestPracticesEnd ?u"
    unfolding followed_by_def bestPracticesEnd_def by (rule best_section_end[OF w e])
  have inner: "\<not> followed_by bestPracticesEnd (tl x @ newline # ?u)"
    if "x \<in> set (suffixes ?A)" "x \<noteq> []" "hd x = newline" for x
    unfolding followed_by_def bestPracticesEnd_def
    using best_inner[OF i0(4) items _ that(2,3)] that(1) by (simp add: in_set_suffixes)
  show ?thesis
    unfolding section_at_def using skip lab g i0(1,2,3) inner fin by simp
qed

lemma needs_solution_label: "needs {''solution''} solutionPattern"
proof -
  have w: "map lower_ascii ''Solution'' = [] @ ''solution'' @ []"
    "map lower_ascii ''Step-by-step solution'' = ''step-by-step '' @ ''solution'' @ []"
    "map lower_ascii ''Suggested solution'' = ''suggested '' @ ''solution'' @ []"
    by code_simp+
  have "needs {''solution''} (LitCI ''Solution'')"
    "needs {''solution''} (LitCI ''Step-by-step solution'')"
    "needs {''solution''} (LitCI ''Suggested solution'')"
    by (rule needs_LitCI[OF w(1)], simp, rule needs_LitCI[OF w(2)], simp,
        rule needs_LitCI[OF w(3)], simp)
  then show ?thesis
    unfolding solutionPattern_def sectionPattern_def
    by (intro needs_Seq1 needs_Alt)
qed

text \<open>
  The best practices of a section whose body is a first line and a list of items: the
  body, which neither begins nor ends with white space, is split at the newline of each
  item, up to the item's text.
\<close>

lemma bestPracticesOf_section:
  assumes s: "section_at bestPracticesLabel bestPracticesEnd pre l gap
      (lead_in @ concat (map item_line items)) rest"
    and lead: "one_line lead_in" "trimmed lead_in" and items: "list_all item_ok items"
  shows "bestPracticesOf (pre @ l @ gap @ (lead_in @ concat (map item_line items)) @ newline # rest)
    = lead_in # map item_text items"
proof -
  let ?A = "lead_in @ concat (map item_line items)"
  from lead(1) have i0: "lead_in \<noteq> []" "newline \<notin> set lead_in" by (simp_all add: one_line_def)
  from section_at_exec[OF s group_ids_ends(3)] obtain m where
    m: "exec bestPracticesPattern (pre @ l @ gap @ ?A @ newline # rest) = Some m"
      "group_text m 1 = ?A"
    by (auto simp: section_patterns)
  have tr: "trim ?A = ?A" by (rule trim_trimmed, rule trimmed_items[OF i0(1) lead(2) items])
  have sp: "split_rx itemPattern ?A = lead_in # map item_text items"
    using split_items[OF i0(2) items, of "[]"] i0(1) by (simp add: split_rx_def)
  have ne: "\<forall>i \<in> set items. item_text i \<noteq> [] \<and> trim (item_text i) = item_text i"
    using items trim_trimmed by (auto simp: list_all_iff item_ok_def)
  then have f: "filter (\<lambda>p. p \<noteq> []) (lead_in # map item_text items) = lead_in # map item_text items"
    using i0(1) by (simp add: filter_id_conv)
  have t: "map trim (lead_in # map item_text items) = lead_in # map item_text items"
    using ne trim_trimmed[OF lead(2)] by (simp add: map_idI)
  have "bestPracticesOf (pre @ l @ gap @ ?A @ newline # rest)
      = map trim (filter (\<lambda>p. p \<noteq> []) (split_rx itemPattern (trim ?A)))"
    unfolding bestPracticesOf_def m(1) Let_def using m(2) i0(1) by simp
  also have "\<dots> = lead_in # map item_text items" unfolding tr sp f t ..
  finally show ?thesis .
qed

text \<open>
  C3.  The claim: for the section \<open>Best Practices: 1. Validate input 2. Avoid globals\<close>
  the best practices are \<open>Validate input\<close> and \<open>Avoid globals\<close>.  The split pattern
  begins with a newline, so a marker inside a line splits nothing: of that section,
  ended by a newline, the one line as it stands is the only item.
\<close>

theorem C3_inline_items_not_split:
  "parseAIResponse (Some ''Best Practices: 1. Validate input 2. Avoid globals\<newline>'') None
     = Some (Inr \<lparr>analysis = ''Best Practices: 1. Validate input 2. Avoid globals'',
                  solution = [], codeSnippets = [],
                  bestPractices = [''1. Validate input 2. Avoid globals'']\<rparr>)"
proof -
  let ?raw = "''Best Practices: 1. Validate input 2. Avoid globals\<newline>''"
  let ?line = "''1. Validate input 2. Avoid globals''"
  have "\<not> str_includes (map lower_ascii ?raw) ''solution''" by code_simp
  then have o: "\<not> occurs_ci {''solution''} ?raw" by (simp add: occurs_ci_def str_includes_sublist)
  have t: "trim (first_paragraph ?raw) = ''Best Practices: 1. Validate input 2. Avoid globals''"
    by code_simp
  have a: "analysisOf ?raw = Inr ''Best Practices: 1. Validate input 2. Avoid globals''"
    using analysisOf_fallback[OF needs_exec[OF needs_analysisPattern o]] t by (simp only:)
  have s: "solutionOf ?raw = []"
    using needs_exec[OF needs_solution_label o] by (simp add: solutionOf_def)
  have c: "exec_all codeBlockPattern ?raw = Some []" by code_simp
  have k: "one_line ?line" "trimmed ?line"
    by (simp_all add: one_line_def trimmed_def is_space_def newline_def)
  have "section_at bestPracticesLabel bestPracticesEnd [] ''Best Practices'' '': ''
      (?line @ concat (map item_line [])) ([] @ [] @ [])"
    by (rule list_section[OF _ _ _ _ k(1)])
      (simp_all add: occurs_ci_def line_start_def same_ci_def label_gap_def is_space_def)
  then have sec: "section_at bestPracticesLabel bestPracticesEnd [] ''Best Practices'' '': ''
      (?line @ concat (map item_line [])) []"
    by simp
  from bestPracticesOf_section[OF sec k]
  have b: "bestPracticesOf ?raw = [?line]" by (simp add: newline_def)
  show ?thesis using a s c b by (simp add: parseAIResponse_def)
qed

text \<open>
  C3, as the code has it.  On every text the call returns a record whose best practices
  are all non-empty and trimmed.  When the body of the best-practices section, as the
  pattern finds it, is a first line followed by list items on lines of their own (a
  newline, indentation, a marker, white space and the item's text), the best practices
  are one first element and then the texts of the items, in order; the first element is
  the first line of the body, if that does not begin with a marker itself.
\<close>

theorem C3_best_practices_items:
  "\<exists>sol. parseAIResponse (Some rawText) fileContents = Some (Inr sol)
     \<and> (\<forall>p \<in> set (bestPractices sol). p \<noteq> [] \<and> trim p = p)
     \<and> (rawText = pre @ l @ gap @ body @ newline # rest
          \<and> section_at bestPracticesLabel bestPracticesEnd pre l gap body rest
          \<and> body = lead_in @ concat (map item_line items)
          \<and> one_line lead_in \<and> trimmed lead_in \<and> list_all item_ok items
        \<longrightarrow> (\<exists>first. bestPractices sol = first # map item_text items
              \<and> (\<not> marked lead_in \<longrightarrow> first = lead_in)))"
proof -
  from parseAIResponse_returns[of rawText fileContents] obtain blocks a where
    p: "parseAIResponse (Some rawText) fileContents
         = Some (Inr \<lparr>analysis = a, solution = solutionOf rawText,
                       codeSnippets = map (snippetOf fileContents) blocks,
                       bestPractices = bestPracticesOf rawText\<rparr>)"
    by blast
  have "bestPracticesOf rawText = lead_in # map item_text items"
    if "rawText = pre @ l @ gap @ body @ newline # rest"
      "section_at bestPracticesLabel bestPracticesEnd pre l gap body rest"
      "body = lead_in @ concat (map item_line items)"
      "one_line lead_in" "trimmed lead_in" "list_all item_ok items"
    using bestPracticesOf_section[OF that(2)[unfolded that(3)] that(4,5,6)] that(1,3) by simp
  then show ?thesis
    using p bestPracticesOf_items[of _ rawText] by auto
qed

theorem C3_best_practices_items_witness:
  "(\<exists>sol. parseAIResponse
       (Some ''Best Practices: Checklist\<newline>1. Validate input\<newline>- Avoid globals\<newline>  * Log errors\<newline>'')
       None = Some (Inr sol)
       \<and> bestPractices sol = [''Checklist'', ''Validate input'', ''Avoid globals'', ''Log errors'']
       \<and> trim ''Validate input'' = ''Validate input'')
   \<and> (\<exists>sol first. parseAIResponse
         (Some ''Best Practices:\<newline>1. Validate input\<newline>2. Avoid globals\<newline>'') None = Some (Inr sol)
       \<and> bestPractices sol = [first, ''Avoid globals''])"
proof -
  let ?raw = "''Best Practices: Checklist\<newline>1. Validate input\<newline>- Avoid globals\<newline>  * Log errors\<newline>''"
  let ?body = "''Checklist\<newline>1. Validate input\<newline>- Avoid globals\<newline>  * Log errors''"
  let ?items = "[\<lparr>indent = [], bullet = ''1.'', spacing = '' '', item_text = ''Validate input''\<rparr>,
      \<lparr>indent = [], bullet = ''-'', spacing = '' '', item_text = ''Avoid globals''\<rparr>,
      \<lparr>indent = ''  '', bullet = ''*'', spacing = '' '', item_text = ''Log errors''\<rparr>]"
  have h: "?raw = [] @ ''Best Practices'' @ '': '' @ ?body @ newline # []"
    "?body = ''Checklist'' @ concat (map item_line ?items)"
    by (simp_all add: item_line_def newline_def)
  have k: "one_line ''Checklist''" "trimmed ''Checklist''" "\<not> marked ''Checklist''"
    "list_all item_ok ?items"
    by (simp_all add: one_line_def trimmed_def marked_def item_ok_def is_marker_def
        is_space_def is_digit_def newline_def)
  have "section_at bestPracticesLabel bestPracticesEnd [] ''Best Practices'' '': ''
      (''Checklist'' @ concat (map item_line ?items)) ([] @ [] @ [])"
    by (rule list_section[OF _ _ _ _ k(1,4)])
      (simp_all add: occurs_ci_def line_start_def same_ci_def label_gap_def is_space_def)
  then have sec: "section_at bestPracticesLabel bestPracticesEnd [] ''Best Practices'' '': '' ?body []"
    unfolding h(2)[symmetric] by simp
  from C3_best_practices_items[of ?raw None "[]" "''Best Practices''" "'': ''" ?body "[]"
      "''Checklist''" ?items]
  obtain sol where sol: "parseAIResponse (Some ?raw) None = Some (Inr sol)"
    "\<forall>p \<in> set (bestPractices sol). p \<noteq> [] \<and> trim p = p"
    "?raw = [] @ ''Best Practices'' @ '': '' @ ?body @ newline # []
      \<and> section_at bestPracticesLabel bestPracticesEnd [] ''Best Practices'' '': '' ?body []
      \<and> ?body = ''Checklist'' @ concat (map item_line ?items)
      \<and> one_line ''Checklist'' \<and> trimmed ''Checklist'' \<and> list_all item_ok ?items
     \<longrightarrow> (\<exists>first. bestPractices sol = first # map item_text ?items
           \<and> (\<not> marked ''Checklist'' \<longrightarrow> first = ''Checklist''))"
    by blast
  from sol(3) h sec k have "\<exists>first. bestPractices sol = first # map item_text ?items
           \<and> (\<not> marked ''Checklist'' \<longrightarrow> first = ''Checklist'')"
    by blast
  with k(3) have b: "bestPractices sol = ''Checklist'' # map item_text ?items" by blast
  then have b': "bestPractices sol = [''Checklist'', ''Validate input'', ''Avoid globals'', ''Log errors'']"
    by simp
  with sol(2) have "trim ''Validate input'' = ''Validate input''" by simp
  with sol(1) b' have 1: "\<exists>sol. parseAIResponse (Some ?raw) None = Some (Inr sol)
       \<and> bestPractices sol = [''Checklist'', ''Validate input'', ''Avoid globals'', ''Log errors'']
       \<and> trim ''Validate input'' = ''Validate input''"
    by blast
  let ?raw2 = "''Best Practices:\<newline>1. Validate input\<newline>2. Avoid globals\<newline>''"
  let ?body2 = "''1. Validate input\<newline>2. Avoid globals''"
  let ?items2 = "[\<lparr>indent = [], bullet = ''2.'', spacing = '' '', item_text = ''Avoid globals''\<rparr>]"
  have h2: "?raw2 = [] @ ''Best Practices'' @ '':\<newline>'' @ ?body2 @ newline # []"
    "?body2 = ''1. Validate input'' @ concat (map item_line ?items2)"
    by (simp_all add: item_line_def newline_def)
  have k2: "one_line ''1. Validate input''" "trimmed ''1. Validate input''" "list_all item_ok ?items2"
    by (simp_all add: one_line_def trimmed_def item_ok_def is_marker_def
        is_space_def is_digit_def newline_def)
  have "section_at bestPracticesLabel bestPracticesEnd [] ''Best Practices'' '':\<newline>''
      (''1. Validate input'' @ concat (map item_line ?items2)) ([] @ [] @ [])"
    by (rule list_section[OF _ _ _ _ k2(1,3)])
      (simp_all add: occurs_ci_def line_start_def same_ci_def label_gap_def is_space_def)
  then have sec2: "section_at bestPracticesLabel bestPracticesEnd [] ''Best Practices'' '':\<newline>''
      ?body2 []"
    unfolding h2(2)[symmetric] by simp
  from C3_best_practices_items[of ?raw2 None "[]" "''Best Practices''" "'':\<newline>''" ?body2 "[]"
      "''1. Validate input''" ?items2]
  obtain sol2 where sol2: "parseAIResponse (Some ?raw2) None = Some (Inr sol2)"
    "?raw2 = [] @ ''Best Practices'' @ '':\<newline>'' @ ?body2 @ newline # []
      \<and> section_at bestPracticesLabel bestPracticesEnd [] ''Best Practices'' '':\<newline>'' ?body2 []
      \<and> ?body2 = ''1. Validate input'' @ concat (map item_line ?items2)
      \<and> one_line ''1. Validate input'' \<and> trimmed ''1. Validate input''
      \<and> list_all item_ok ?items2
     \<longrightarrow> (\<exists>first. bestPractices sol2 = first # map item_text ?items2
           \<and> (\<not> marked ''1. Validate input'' \<longrightarrow> first = ''1. Validate input''))"
    by blast
  from sol2(2) h2 sec2 k2 obtain first where "bestPractices sol2 = first # map item_text ?items2"
    by blast
  then have "bestPractices sol2 = [first, ''Avoid globals'']" by simp
  with sol2(1) have 2: "\<exists>sol first. parseAIResponse (Some ?raw2) None = Some (Inr sol)
       \<and> bestPractices sol = [first, ''Avoid globals'']"
    by blast
  from 1 2 show ?thesis by blast
qed

end
